theory Spec2Isabelle
  imports Complex_Main
begin

section \<open>JavaScript values and arrays\<close>

text \<open>
  The run counter is a JavaScript number. \<open>counts.get(schedule) + 1\<close> is \<open>NaN\<close> when the
  key is absent (\<open>undefined + 1\<close>) and stays \<open>NaN\<close> afterwards. Numbers are modelled as
  exact naturals; the loss of precision of doubles above \<open>2^53\<close> is not modelled.
\<close>

datatype jsnum = Num nat | NaN

fun js_plus1 :: "jsnum option \<Rightarrow> jsnum" where
  "js_plus1 (Some (Num n)) = Num (n + 1)"
| "js_plus1 (Some NaN) = NaN"
| "js_plus1 None = NaN"

text \<open>\<open>Array.prototype.indexOf\<close>: the first index holding the element, \<open>-1\<close> when absent.\<close>

fun indexOf :: "'a list \<Rightarrow> 'a \<Rightarrow> int" where
  "indexOf [] x = - 1"
| "indexOf (y # ys) x =
     (if y = x then 0
      else (let i = indexOf ys x in if i < 0 then - 1 else i + 1))"

text \<open>
  \<open>Array.prototype.splice(start, deleteCount)\<close> with no inserted items: a negative
  \<open>start\<close> counts from the end (\<open>max (len + start) 0\<close>), a \<open>start\<close> beyond the end is the
  length; \<open>deleteCount\<close> elements from there are removed.
\<close>

definition array_splice :: "'a list \<Rightarrow> int \<Rightarrow> nat \<Rightarrow> 'a list" where
  "array_splice xs start deleteCount =
     (let len = int (length xs);
          actualStart = (if start < 0 then max (len + start) 0 else min start len)
      in take (nat actualStart) xs @ drop (nat actualStart + deleteCount) xs)"

section \<open>Objects and references\<close>

text \<open>
  Schedules, runs and cache objects are JavaScript objects, compared and used as
  \<open>Map\<close> keys by identity. They are modelled as references (addresses) into stores
  that are part of the state.
\<close>

type_synonym schedule = nat
type_synonym run = nat
type_synonym addr = nat
type_synonym handle = nat

text \<open>
  Modelled from the spec: the Schedule record (structs/db/Schedule.js is not among the
  sources). The spec lists the fields consumed: the identity (here the reference), the
  refresh interval in minutes, and an optional per-schedule max-runs override. The
  manager reads only \<open>refreshRateMinutes\<close>. It is a JavaScript number, modelled as
  an exact rational: the rounding of doubles is not modelled.
\<close>

record schedule_obj =
  refreshRateMinutes :: rat
  maxRunsOverride :: "int option"

text \<open>A cache object (\<open>{}\<close> when allocated): keys to opaque values.\<close>

type_synonym obj = "string \<rightharpoonup> string"

text \<open>
  Modelled from the spec: the ScheduleRun object (structs/ScheduleRun.js is not among the
  sources). The constructor arguments \<open>(schedule, runCount, memoryCollection, headers)\<close>
  are kept as fields (\<open>getRuns\<close> reads \<open>r.schedule\<close>); \<open>None\<close> is \<open>undefined\<close>.
  \<open>terminated\<close> records \<open>run.terminate()\<close>, \<open>started\<close> records \<open>run.run(debugFeedIDs)\<close>.
  The two listener flags are the EventEmitter registrations made by the manager: the
  \<open>once('finish', ...)\<close> handler and the \<open>on('pendingArticle', ...)\<close> handler.
\<close>

record run_obj =
  rschedule :: schedule
  rrunCount :: "jsnum option"
  rmemoryCollection :: "addr option"
  rheaders :: "addr option"
  terminated :: bool
  started :: bool
  finishListener :: bool
  pendingArticleListener :: bool

text \<open>
  An interval armed with \<open>setInterval\<close>: its handle, the schedule its callback runs, and
  the period in milliseconds with which the event loop fires it.
\<close>

record interval =
  ihandle :: handle
  ischedule :: schedule
  idelay :: int

record pendingArticle =
  feedID :: string
  link :: string

datatype log_entry =
    Warn_unfinished_runs nat
      \<comment> \<open>warn: Previous schedule runs were not finished (n run(s)). Terminating all runs. ...\<close>
  | Debug_queueing string string
      \<comment> \<open>debug: feedID ScheduleManager queueing article link to send\<close>

text \<open>
  What the manager reads from its collaborators: \<open>getConfig().advanced.parallelRuns\<close>
  (\<open>None\<close> when the value is undefined or not an integer, which no array length equals)
  and \<open>Base.isMongoDatabase\<close>.
\<close>

record env =
  parallelRuns :: "int option"
  isMongoDatabase :: bool

text \<open>
  The fields of \<open>ScheduleManager\<close> (the first seven), followed by the part of the
  world it acts on: the logger output, the events the manager itself emits, the object
  stores with their allocation counters, and the intervals armed in the event loop.
\<close>

record state =
  timers :: "handle list"
  debugFeedIDs :: "string set"
  schedules :: "schedule list"
  scheduleRuns :: "run list"
  scheduleRunCounts :: "schedule \<rightharpoonup> jsnum"
  memoryCollections :: "schedule \<rightharpoonup> addr"
  headers :: "schedule \<rightharpoonup> addr"
  logged :: "log_entry list"
  emitted :: "pendingArticle list"
  schedObj :: "schedule \<Rightarrow> schedule_obj"
  runObj :: "run \<Rightarrow> run_obj"
  nextRun :: nat
  objs :: "addr \<Rightarrow> obj"
  nextObj :: nat
  intervals :: "interval list"
  nextHandle :: nat

definition blank_run :: run_obj where
  "blank_run = \<lparr>rschedule = 0, rrunCount = None, rmemoryCollection = None, rheaders = None,
     terminated = False, started = False, finishListener = False,
     pendingArticleListener = False\<rparr>"

text \<open>The constructor: every field of the manager empty; nothing allocated, nothing armed.\<close>

definition init :: "(schedule \<Rightarrow> schedule_obj) \<Rightarrow> state" where
  "init sobjs = \<lparr>timers = [], debugFeedIDs = {}, schedules = [], scheduleRuns = [],
     scheduleRunCounts = Map.empty, memoryCollections = Map.empty, headers = Map.empty,
     logged = [], emitted = [], schedObj = sobjs, runObj = (\<lambda>_. blank_run), nextRun = 0,
     objs = (\<lambda>_. Map.empty), nextObj = 0, intervals = [], nextHandle = 0\<rparr>"

section \<open>Collaborators\<close>

text \<open>The object literal \<open>{}\<close>: a fresh empty object.\<close>

definition new_object :: "state \<Rightarrow> addr \<times> state" where
  "new_object st =
     (nextObj st, st\<lparr>objs := (objs st)(nextObj st := Map.empty), nextObj := nextObj st + 1\<rparr>)"

text \<open>\<open>new ScheduleRun(schedule, runCount, memoryCollection, headers)\<close>.\<close>

definition new_ScheduleRun ::
  "state \<Rightarrow> schedule \<Rightarrow> jsnum option \<Rightarrow> addr option \<Rightarrow> addr option \<Rightarrow> run \<times> state" where
  "new_ScheduleRun st s runCount memoryCollection hdrs =
     (nextRun st,
      st\<lparr>runObj := (runObj st)(nextRun st :=
            \<lparr>rschedule = s, rrunCount = runCount, rmemoryCollection = memoryCollection,
             rheaders = hdrs, terminated = False, started = False, finishListener = False,
             pendingArticleListener = False\<rparr>),
         nextRun := nextRun st + 1\<rparr>)"

definition run_terminate :: "state \<Rightarrow> run \<Rightarrow> state" where
  "run_terminate st r = st\<lparr>runObj := (runObj st)(r := (runObj st r)\<lparr>terminated := True\<rparr>)\<rparr>"

definition run_removeAllListeners :: "state \<Rightarrow> run \<Rightarrow> state" where
  "run_removeAllListeners st r =
     st\<lparr>runObj := (runObj st)(r := (runObj st r)\<lparr>finishListener := False,
                                                 pendingArticleListener := False\<rparr>)\<rparr>"

definition run_once_finish :: "state \<Rightarrow> run \<Rightarrow> state" where
  "run_once_finish st r = st\<lparr>runObj := (runObj st)(r := (runObj st r)\<lparr>finishListener := True\<rparr>)\<rparr>"

definition run_on_pendingArticle :: "state \<Rightarrow> run \<Rightarrow> state" where
  "run_on_pendingArticle st r =
     st\<lparr>runObj := (runObj st)(r := (runObj st r)\<lparr>pendingArticleListener := True\<rparr>)\<rparr>"

text \<open>\<open>run.run(debugFeedIDs)\<close>: the run begins its asynchronous work.\<close>

definition run_run :: "state \<Rightarrow> run \<Rightarrow> state" where
  "run_run st r = st\<lparr>runObj := (runObj st)(r := (runObj st r)\<lparr>started := True\<rparr>)\<rparr>"

text \<open>
  The period Node gives a timer for the delay it is passed: a delay below 1 or above
  \<open>TIMEOUT_MAX = 2^31 - 1\<close> is replaced by 1, and a delay that is not a whole number of
  milliseconds is truncated.
\<close>

definition TIMEOUT_MAX :: int where
  "TIMEOUT_MAX = 2147483647"

definition timer_period :: "rat \<Rightarrow> int" where
  "timer_period after =
     (if 1 \<le> after \<and> after \<le> of_int TIMEOUT_MAX then \<lfloor>after\<rfloor> else 1)"

definition setInterval :: "state \<Rightarrow> schedule \<Rightarrow> rat \<Rightarrow> handle \<times> state" where
  "setInterval st s delay =
     (nextHandle st,
      st\<lparr>intervals := intervals st @
           [\<lparr>ihandle = nextHandle st, ischedule = s, idelay = timer_period delay\<rparr>],
         nextHandle := nextHandle st + 1\<rparr>)"

definition clearInterval :: "state \<Rightarrow> handle \<Rightarrow> state" where
  "clearInterval st h = st\<lparr>intervals := filter (\<lambda>i. ihandle i \<noteq> h) (intervals st)\<rparr>"

section \<open>ScheduleManager\<close>

definition onPendingArticle :: "state \<Rightarrow> pendingArticle \<Rightarrow> state" where
  "onPendingArticle st article =
     (let st1 = (if feedID article \<in> debugFeedIDs st
                 then st\<lparr>logged := logged st @ [Debug_queueing (feedID article) (link article)]\<rparr>
                 else st)
      in st1\<lparr>emitted := emitted st1 @ [article]\<rparr>)"

definition addSchedule :: "env \<Rightarrow> state \<Rightarrow> schedule \<Rightarrow> state" where
  "addSchedule e st s =
     (let st1 = st\<lparr>schedules := schedules st @ [s]\<rparr>;
          st2 = st1\<lparr>scheduleRunCounts := (scheduleRunCounts st1)(s \<mapsto> Num 0)\<rparr>;
          st3 = (if isMongoDatabase e
                 then (let (a, st') = new_object st2
                       in st'\<lparr>memoryCollections := (memoryCollections st')(s \<mapsto> a)\<rparr>)
                 else st2);
          (b, st4) = new_object st3
      in st4\<lparr>headers := (headers st4)(s \<mapsto> b)\<rparr>)"

definition addSchedules :: "env \<Rightarrow> state \<Rightarrow> schedule list \<Rightarrow> state" where
  "addSchedules e st ss = foldl (addSchedule e) st ss"

definition getRuns :: "state \<Rightarrow> schedule \<Rightarrow> run list" where
  "getRuns st s = filter (\<lambda>r. rschedule (runObj st r) = s) (scheduleRuns st)"

definition terminateRun :: "state \<Rightarrow> run \<Rightarrow> state" where
  "terminateRun st r =
     (let st1 = run_terminate st r;
          st2 = run_removeAllListeners st1 r
      in st2\<lparr>scheduleRuns := array_splice (scheduleRuns st2) (indexOf (scheduleRuns st2) r) 1\<rparr>)"

definition terminateScheduleRuns :: "state \<Rightarrow> schedule \<Rightarrow> state" where
  "terminateScheduleRuns st s = (let runs = getRuns st s in foldl terminateRun st runs)"

definition atMaxRuns :: "env \<Rightarrow> state \<Rightarrow> schedule \<Rightarrow> bool" where
  "atMaxRuns e st s =
     (let maxRuns = parallelRuns e;
          runs = getRuns st s
      in Some (int (length runs)) = maxRuns)"

definition incrementRunCount :: "state \<Rightarrow> schedule \<Rightarrow> state" where
  "incrementRunCount st s =
     (let counts = scheduleRunCounts st
      in st\<lparr>scheduleRunCounts := counts(s \<mapsto> js_plus1 (counts s))\<rparr>)"

text \<open>
  \<open>run(schedule)\<close>. The \<open>finish\<close> handler registered here is \<open>emit_finish\<close> below; its
  closure holds the new run and \<open>schedule\<close>, the schedule the run was constructed with.
\<close>

definition run :: "env \<Rightarrow> state \<Rightarrow> schedule \<Rightarrow> state" where
  "run e st s =
     (let st1 = (if atMaxRuns e st s
                 then (let runCount = length (getRuns st s);
                           stw = st\<lparr>logged := logged st @ [Warn_unfinished_runs runCount]\<rparr>
                       in terminateScheduleRuns stw s)
                 else st);
          runCount = scheduleRunCounts st1 s;
          memoryCollection = memoryCollections st1 s;
          hdrs = headers st1 s;
          (r, st2) = new_ScheduleRun st1 s runCount memoryCollection hdrs;
          st3 = run_once_finish st2 r;
          st4 = run_on_pendingArticle st3 r;
          st5 = st4\<lparr>scheduleRuns := scheduleRuns st4 @ [r]\<rparr>
      in run_run st5 r)"

definition clearTimers :: "state \<Rightarrow> state" where
  "clearTimers st =
     (if length (timers st) = 0 then st
      else (foldl clearInterval st (timers st))\<lparr>timers := []\<rparr>)"

definition beginTimers_step :: "env \<Rightarrow> state \<Rightarrow> schedule \<Rightarrow> state" where
  "beginTimers_step e st s =
     (let st1 = run e st s;
          (h, st2) = setInterval st1 s (refreshRateMinutes (schedObj st1 s) * 60000)
      in st2\<lparr>timers := timers st2 @ [h]\<rparr>)"

definition beginTimers :: "env \<Rightarrow> state \<Rightarrow> state" where
  "beginTimers e st =
     (let st1 = clearTimers st
      in foldl (beginTimers_step e) st1 (schedules st1))"

definition addDebugFeedID :: "state \<Rightarrow> string \<Rightarrow> state" where
  "addDebugFeedID st f = st\<lparr>debugFeedIDs := insert f (debugFeedIDs st)\<rparr>"

definition removeDebugFeedID :: "state \<Rightarrow> string \<Rightarrow> state" where
  "removeDebugFeedID st f = st\<lparr>debugFeedIDs := debugFeedIDs st - {f}\<rparr>"

definition isDebugging :: "state \<Rightarrow> string \<Rightarrow> bool" where
  "isDebugging st f = (f \<in> debugFeedIDs st)"

section \<open>Signals from runs and timers\<close>

text \<open>
  A run emits \<open>finish\<close>. The handler was registered with \<open>once\<close>: it is removed before it
  is called, and it is not called at all when \<open>removeAllListeners\<close> has removed it.
\<close>

definition emit_finish :: "state \<Rightarrow> run \<Rightarrow> state" where
  "emit_finish st r =
     (if finishListener (runObj st r)
      then (let s = rschedule (runObj st r);
                st1 = st\<lparr>runObj := (runObj st)(r := (runObj st r)\<lparr>finishListener := False\<rparr>)\<rparr>;
                st2 = terminateRun st1 r
            in incrementRunCount st2 s)
      else st)"

definition emit_pendingArticle :: "state \<Rightarrow> run \<Rightarrow> pendingArticle \<Rightarrow> state" where
  "emit_pendingArticle st r article =
     (if pendingArticleListener (runObj st r) then onPendingArticle st article else st)"

text \<open>An armed interval fires: its callback runs the schedule. A cleared handle does nothing.\<close>

definition fire :: "env \<Rightarrow> state \<Rightarrow> handle \<Rightarrow> state" where
  "fire e st h =
     (case find (\<lambda>i. ihandle i = h) (intervals st) of
        None \<Rightarrow> st
      | Some i \<Rightarrow> run e st (ischedule i))"

text \<open>A run writes a key of the header cache, or of the memory collection, it was handed.\<close>

definition write_cache :: "state \<Rightarrow> addr option \<Rightarrow> string \<Rightarrow> string \<Rightarrow> state" where
  "write_cache st a k v =
     (case a of None \<Rightarrow> st
      | Some p \<Rightarrow> st\<lparr>objs := (objs st)(p := (objs st p)(k \<mapsto> v))\<rparr>)"

datatype event =
    AddSchedule schedule
  | Dispatch schedule
  | Finish run
  | PendingArticle run pendingArticle
  | TerminateRun run
  | TerminateScheduleRuns schedule
  | BeginTimers
  | ClearTimers
  | Fire handle
  | AddDebugFeedID string
  | RemoveDebugFeedID string
  | WriteHeaders run string string
  | WriteMemory run string string

fun step :: "env \<Rightarrow> state \<Rightarrow> event \<Rightarrow> state" where
  "step e st (AddSchedule s) = addSchedule e st s"
| "step e st (Dispatch s) = run e st s"
| "step e st (Finish r) = emit_finish st r"
| "step e st (PendingArticle r a) = emit_pendingArticle st r a"
| "step e st (TerminateRun r) = terminateRun st r"
| "step e st (TerminateScheduleRuns s) = terminateScheduleRuns st s"
| "step e st BeginTimers = beginTimers e st"
| "step e st ClearTimers = clearTimers st"
| "step e st (Fire h) = fire e st h"
| "step e st (AddDebugFeedID f) = addDebugFeedID st f"
| "step e st (RemoveDebugFeedID f) = removeDebugFeedID st f"
| "step e st (WriteHeaders r k v) = write_cache st (rheaders (runObj st r)) k v"
| "step e st (WriteMemory r k v) = write_cache st (rmemoryCollection (runObj st r)) k v"

definition exec :: "env \<Rightarrow> state \<Rightarrow> event list \<Rightarrow> state" where
  "exec e st evs = foldl (step e) st evs"

section \<open>Example states\<close>

definition ex_sobjs :: "schedule \<Rightarrow> schedule_obj" where
  "ex_sobjs = (\<lambda>_. \<lparr>refreshRateMinutes = 10, maxRunsOverride = None\<rparr>)"

definition ex_env :: env where
  "ex_env = \<lparr>parallelRuns = Some 5, isMongoDatabase = True\<rparr>"

text \<open>One schedule, dispatched twice; both runs still active.\<close>

definition ex_two :: state where
  "ex_two = exec ex_env (init ex_sobjs) [AddSchedule 0, Dispatch 0, Dispatch 0]"

text \<open>One run dispatched and finished normally: the counter of schedule 0 is 1.\<close>

definition ex_completed :: state where
  "ex_completed = exec ex_env (init ex_sobjs) [AddSchedule 0, Dispatch 0, Finish 0]"

text \<open>Three runs dispatched, the first terminated: runs 1 and 2 are registered, run 0 is not.\<close>

definition ex_terminated :: state where
  "ex_terminated =
     exec ex_env (init ex_sobjs) [AddSchedule 0, Dispatch 0, Dispatch 0, Dispatch 0, TerminateRun 0]"

text \<open>A schedule with a max-runs override of 1, dispatched once.\<close>

definition ex_override :: state where
  "ex_override =
     exec ex_env (init (\<lambda>_. \<lparr>refreshRateMinutes = 10, maxRunsOverride = Some 1\<rparr>))
       [AddSchedule 0, Dispatch 0]"

text \<open>
  A run writes its header cache and finishes; the schedule is registered again and
  dispatched again.
\<close>

definition ex_readded :: state where
  "ex_readded =
     exec ex_env (init ex_sobjs)
       [AddSchedule 0, Dispatch 0, WriteHeaders 0 ''etag'' ''abc'', Finish 0,
        AddSchedule 0, Dispatch 0]"

text \<open>A backend that is not Mongo.\<close>

definition ex_env_plain :: env where
  "ex_env_plain = \<lparr>parallelRuns = Some 5, isMongoDatabase = False\<rparr>"


text \<open>
  Two schedules: runs 0 and 2 belong to schedule 0, run 1 to schedule 1; all three are
  registered.
\<close>

definition ex_mixed :: state where
  "ex_mixed =
     exec ex_env (init ex_sobjs)
       [AddSchedule 0, AddSchedule 1, Dispatch 0, Dispatch 1, Dispatch 0]"

text \<open>
  Run 0 is terminated twice. The second call removes run 2, the last entry, from the
  registry: run 2 is still active and subscribed, but no longer registered.
\<close>

definition ex_orphan :: state where
  "ex_orphan =
     exec ex_env (init ex_sobjs)
       [AddSchedule 0, Dispatch 0, Dispatch 0, Dispatch 0, TerminateRun 0, TerminateRun 0]"



section \<open>Auxiliary notions for the proofs\<close>

text \<open>What \<open>terminateRun\<close> does to the run object: terminated, both listeners removed.\<close>

definition stopped :: "run_obj \<Rightarrow> run_obj" where
  "stopped ro = ro\<lparr>terminated := True, finishListener := False, pendingArticleListener := False\<rparr>"

text \<open>
  Frames: an operation leaves the per-schedule store, or the timers, untouched.
\<close>

definition keeps_store :: "state \<Rightarrow> state \<Rightarrow> bool" where
  "keeps_store st st' \<longleftrightarrow>
     schedules st' = schedules st \<and> scheduleRunCounts st' = scheduleRunCounts st \<and>
     memoryCollections st' = memoryCollections st \<and> headers st' = headers st \<and>
     schedObj st' = schedObj st \<and> objs st' = objs st \<and> nextObj st' = nextObj st \<and>
     debugFeedIDs st' = debugFeedIDs st"

definition keeps_timers :: "state \<Rightarrow> state \<Rightarrow> bool" where
  "keeps_timers st st' \<longleftrightarrow>
     timers st' = timers st \<and> intervals st' = intervals st \<and> nextHandle st' = nextHandle st"

text \<open>The state in which \<open>run\<close> constructs the new run: after the capacity remediation.\<close>

definition remediated :: "env \<Rightarrow> state \<Rightarrow> schedule \<Rightarrow> state" where
  "remediated e st s =
     (if atMaxRuns e st s
      then terminateScheduleRuns (st\<lparr>logged := logged st @ [Warn_unfinished_runs (length (getRuns st s))]\<rparr>) s
      else st)"

text \<open>
  The registry invariant: run references are handed out in increasing order and pushed
  at the end, so the registry is strictly increasing (in particular it never holds a
  run twice) and every registered run has been allocated.
\<close>

definition runs_ok :: "state \<Rightarrow> bool" where
  "runs_ok st \<longleftrightarrow>
     sorted_wrt (<) (scheduleRuns st) \<and> (\<forall>r \<in> set (scheduleRuns st). r < nextRun st)"

text \<open>
  A normal completion of a run of schedule \<open>s\<close>: the run emits \<open>finish\<close> while the
  handler registered by \<open>run\<close> is still subscribed. \<open>completions\<close> counts them along
  a sequence of events.
\<close>

definition completes :: "state \<Rightarrow> event \<Rightarrow> schedule \<Rightarrow> bool" where
  "completes st ev s =
     (case ev of Finish r \<Rightarrow> finishListener (runObj st r) \<and> rschedule (runObj st r) = s
      | _ \<Rightarrow> False)"

fun completions :: "env \<Rightarrow> state \<Rightarrow> event list \<Rightarrow> schedule \<Rightarrow> nat" where
  "completions e st [] s = 0"
| "completions e st (ev # evs) s =
     (if completes st ev s then 1 else 0) + completions e (step e st ev) evs s"

text \<open>
  The cache invariant: every cache object the store holds for a schedule has been
  allocated, so a later \<open>{}\<close> is a different object.
\<close>

definition caches_ok :: "state \<Rightarrow> bool" where
  "caches_ok st \<longleftrightarrow>
     (\<forall>s p. headers st s = Some p \<longrightarrow> p < nextObj st) \<and>
     (\<forall>s p. memoryCollections st s = Some p \<longrightarrow> p < nextObj st)"

text \<open>
  The writes of runs. \<open>write_target\<close> is the object, key and value an event writes, if
  it is a write by a run that holds a cache; \<open>written\<close> is what the write leaves in
  the object at \<open>p\<close>; \<open>replay\<close> applies the writes of a sequence of events to it in
  order; \<open>overwritten\<close> says that some event of the sequence writes key \<open>k\<close> of it.
\<close>

definition write_target :: "state \<Rightarrow> event \<Rightarrow> (addr \<times> string \<times> string) option" where
  "write_target st ev =
     (case ev of
        WriteHeaders r k v \<Rightarrow>
          (case rheaders (runObj st r) of Some p \<Rightarrow> Some (p, k, v) | None \<Rightarrow> None)
      | WriteMemory r k v \<Rightarrow>
          (case rmemoryCollection (runObj st r) of Some p \<Rightarrow> Some (p, k, v) | None \<Rightarrow> None)
      | _ \<Rightarrow> None)"

definition written :: "state \<Rightarrow> event \<Rightarrow> addr \<Rightarrow> obj \<Rightarrow> obj" where
  "written st ev p ob =
     (case write_target st ev of
        Some (q, k, v) \<Rightarrow> if q = p then ob(k \<mapsto> v) else ob
      | None \<Rightarrow> ob)"

fun replay :: "env \<Rightarrow> state \<Rightarrow> event list \<Rightarrow> addr \<Rightarrow> obj \<Rightarrow> obj" where
  "replay e st [] p ob = ob"
| "replay e st (ev # evs) p ob = replay e (step e st ev) evs p (written st ev p ob)"

fun overwritten :: "env \<Rightarrow> state \<Rightarrow> event list \<Rightarrow> addr \<Rightarrow> string \<Rightarrow> bool" where
  "overwritten e st [] p k = False"
| "overwritten e st (ev # evs) p k =
     ((case write_target st ev of Some (q, k', v) \<Rightarrow> q = p \<and> k' = k | None \<Rightarrow> False) \<or>
      overwritten e (step e st ev) evs p k)"

text \<open>The constructor arguments of the runs allocated so far stay what they are.\<close>

definition keeps_runs :: "state \<Rightarrow> state \<Rightarrow> bool" where
  "keeps_runs st st' \<longleftrightarrow>
     nextRun st \<le> nextRun st' \<and>
     (\<forall>r < nextRun st.
        rheaders (runObj st' r) = rheaders (runObj st r) \<and>
        rmemoryCollection (runObj st' r) = rmemoryCollection (runObj st r))"

text \<open>A state with other timers: the three timer fields replaced.\<close>

definition with_timers :: "state \<Rightarrow> handle list \<Rightarrow> interval list \<Rightarrow> nat \<Rightarrow> state" where
  "with_timers st hs is n = st\<lparr>timers := hs, intervals := is, nextHandle := n\<rparr>"


text \<open>
  The interval \<open>beginTimers\<close> arms for a schedule: its callback runs the schedule, its
  period is the one Node gives the delay \<open>refreshRateMinutes * 60000\<close>.
\<close>

definition arm :: "state \<Rightarrow> handle \<Rightarrow> schedule \<Rightarrow> interval" where
  "arm st h s =
     \<lparr>ihandle = h, ischedule = s,
      idelay = timer_period (refreshRateMinutes (schedObj st s) * 60000)\<rparr>"

section \<open>The capacity bound in the spec's words\<close>

text \<open>
  The spec's \<open>configuredMax\<close>: the schedule-level override, else the global
  configuration value, and \<open>ConfigUnavailableError\<close> if neither is resolvable; and its
  \<open>isAtCapacity\<close> on top of it. They are compared with \<open>atMaxRuns\<close> below.
\<close>

datatype error = ConfigUnavailableError | DuplicateRunError | UnknownRunError

definition configuredMax_spec :: "env \<Rightarrow> state \<Rightarrow> schedule \<Rightarrow> error + int" where
  "configuredMax_spec e st s =
     (case maxRunsOverride (schedObj st s) of
        Some m \<Rightarrow> Inr m
      | None \<Rightarrow> (case parallelRuns e of Some m \<Rightarrow> Inr m | None \<Rightarrow> Inl ConfigUnavailableError))"

definition isAtCapacity_spec :: "env \<Rightarrow> state \<Rightarrow> schedule \<Rightarrow> error + bool" where
  "isAtCapacity_spec e st s =
     (case configuredMax_spec e st s of
        Inl err \<Rightarrow> Inl err
      | Inr m \<Rightarrow> Inr (int (length (getRuns st s)) = m))"

section \<open>Unfolding the operations\<close>

text \<open>The defining equations, for evaluating the operations on concrete states.\<close>

lemmas op_defs = exec_def init_def addSchedule_def new_object_def run_def atMaxRuns_def
  getRuns_def new_ScheduleRun_def run_once_finish_def run_on_pendingArticle_def run_run_def
  terminateScheduleRuns_def terminateRun_def run_terminate_def run_removeAllListeners_def
  emit_finish_def incrementRunCount_def array_splice_def


section \<open>Arrays: \<open>indexOf\<close> and \<open>splice\<close>\<close>

lemma indexOf_notin: "x \<notin> set xs \<Longrightarrow> indexOf xs x = - 1"
  by (induction xs) (auto simp: Let_def)

lemma indexOf_in: "x \<in> set xs \<Longrightarrow> 0 \<le> indexOf xs x \<and> indexOf xs x < int (length xs)"
  by (induction xs) (auto simp: Let_def)

lemma splice_indexOf_in: "x \<in> set xs \<Longrightarrow> array_splice xs (indexOf xs x) (Suc 0) = remove1 x xs"
proof (induction xs)
  case Nil
  then show ?case by simp
next
  case (Cons y ys)
  show ?case
  proof (cases "y = x")
    case True
    then show ?thesis by (simp add: array_splice_def)
  next
    case False
    with Cons.prems have xin: "x \<in> set ys" by simp
    from indexOf_in [OF xin] have b: "0 \<le> indexOf ys x" "indexOf ys x < int (length ys)"
      by auto
    have "array_splice ys (indexOf ys x) (Suc 0) = remove1 x ys"
      using Cons.IH xin by simp
    with b False show ?thesis
      by (simp add: array_splice_def Let_def nat_add_distrib min_def)
  qed
qed

lemma splice_minus1: "array_splice xs (- 1) (Suc 0) = butlast xs"
proof (cases "xs = []")
  case True
  then show ?thesis by (simp add: array_splice_def)
next
  case False
  then have "length xs \<ge> 1" by (cases xs) auto
  then have "nat (int (length xs) - 1) = length xs - 1" by simp
  with False show ?thesis
    by (simp add: array_splice_def Let_def max_def butlast_conv_take)
qed

section \<open>The capacity check\<close>

lemma ex_two_getRuns: "getRuns ex_two 0 = [0, 1]"
  by (simp add: ex_two_def ex_env_def op_defs Let_def)

lemma ex_mixed_shape:
  "scheduleRuns ex_mixed = [0, 1, 2] \<and>
   rschedule (runObj ex_mixed 0) = 0 \<and> rschedule (runObj ex_mixed (Suc 0)) = Suc 0 \<and>
   rschedule (runObj ex_mixed 2) = 0"
  by (simp add: ex_mixed_def ex_env_def op_defs Let_def)

text \<open>
  Claim C1. \<open>atMaxRuns\<close> is an exact equality test: it returns true if and only if the
  number of registered runs of the schedule, that is of the entries of the registry
  whose schedule is this one, equals the configured maximum of parallel runs. A run
  count already strictly above the maximum makes it return false.
\<close>

theorem atMaxRuns_exact:
  "(atMaxRuns e st s \<longleftrightarrow>
      parallelRuns e =
        Some (int (length (filter (\<lambda>r. rschedule (runObj st r) = s) (scheduleRuns st))))) \<and>
   (\<forall>m. parallelRuns e = Some m \<and>
        m < int (length (filter (\<lambda>r. rschedule (runObj st r) = s) (scheduleRuns st))) \<longrightarrow>
        \<not> atMaxRuns e st s) \<and>
   getRuns st s = filter (\<lambda>r. rschedule (runObj st r) = s) (scheduleRuns st)"
  by (auto simp: atMaxRuns_def getRuns_def Let_def)

theorem atMaxRuns_exact_witness:
  "scheduleRuns ex_mixed = [0, 1, 2] \<and>
   getRuns ex_mixed 0 = [0, 2] \<and> getRuns ex_mixed 1 = [1] \<and>
   atMaxRuns \<lparr>parallelRuns = Some 2, isMongoDatabase = True\<rparr> ex_mixed 0 \<and>
   \<not> atMaxRuns \<lparr>parallelRuns = Some 2, isMongoDatabase = True\<rparr> ex_mixed 1 \<and>
   \<not> atMaxRuns \<lparr>parallelRuns = Some 3, isMongoDatabase = True\<rparr> ex_mixed 0 \<and>
   \<not> atMaxRuns \<lparr>parallelRuns = Some 1, isMongoDatabase = True\<rparr> ex_mixed 0 \<and>
   atMaxRuns \<lparr>parallelRuns = Some 1, isMongoDatabase = True\<rparr> ex_mixed 1"
  using atMaxRuns_exact [of "\<lparr>parallelRuns = Some 2, isMongoDatabase = True\<rparr>" ex_mixed 0]
    atMaxRuns_exact [of "\<lparr>parallelRuns = Some 2, isMongoDatabase = True\<rparr>" ex_mixed 1]
    atMaxRuns_exact [of "\<lparr>parallelRuns = Some 3, isMongoDatabase = True\<rparr>" ex_mixed 0]
    atMaxRuns_exact [of "\<lparr>parallelRuns = Some 1, isMongoDatabase = True\<rparr>" ex_mixed 0]
    atMaxRuns_exact [of "\<lparr>parallelRuns = Some 1, isMongoDatabase = True\<rparr>" ex_mixed 1]
  by (simp add: ex_mixed_shape)

text \<open>
  Claim C5, as the code has it. \<open>atMaxRuns\<close> reads only the global configuration value.
  With an override of 1 and one active run the spec's check is true while \<open>atMaxRuns\<close>
  (global value 5) is false; with no global value the spec's check fails with
  \<open>ConfigUnavailableError\<close> while \<open>atMaxRuns\<close> returns false.
\<close>

theorem configuredMax_counterexample:
  "maxRunsOverride (schedObj ex_override 0) = Some 1 \<and>
   length (getRuns ex_override 0) = 1 \<and>
   isAtCapacity_spec ex_env ex_override 0 = Inr True \<and>
   \<not> atMaxRuns ex_env ex_override 0 \<and>
   isAtCapacity_spec \<lparr>parallelRuns = None, isMongoDatabase = True\<rparr> ex_two 0
     = Inl ConfigUnavailableError \<and>
   \<not> atMaxRuns \<lparr>parallelRuns = None, isMongoDatabase = True\<rparr> ex_two 0"
  by (simp add: ex_override_def ex_two_def ex_env_def ex_sobjs_def op_defs Let_def
      isAtCapacity_spec_def configuredMax_spec_def)

text \<open>
  Claim C5, amended. The maximum used by the capacity check is always the global
  configuration value: the result does not depend on the schedule objects, so an
  override is never consulted. When the global value is undefined the check returns
  false and nothing fails. Where the schedule has no override and the global value is
  defined, the check agrees with the spec's. In general it agrees with the spec's
  exactly in these cases: with no override, when the global value is defined; with an
  override \<open>m\<close>, in the states where the run count equals \<open>m\<close> if and only if it
  equals the global value.
\<close>

theorem atMaxRuns_global_only:
  "atMaxRuns e (st\<lparr>schedObj := h\<rparr>) s = atMaxRuns e st s \<and>
   (atMaxRuns e st s \<longleftrightarrow> parallelRuns e = Some (int (length (getRuns st s)))) \<and>
   (parallelRuns e = None \<longrightarrow> \<not> atMaxRuns e st s) \<and>
   (maxRunsOverride (schedObj st s) = None \<and> parallelRuns e \<noteq> None \<longrightarrow>
      isAtCapacity_spec e st s = Inr (atMaxRuns e st s)) \<and>
   (isAtCapacity_spec e st s = Inr (atMaxRuns e st s) \<longleftrightarrow>
      (case maxRunsOverride (schedObj st s) of
         None \<Rightarrow> parallelRuns e \<noteq> None
       | Some m \<Rightarrow>
           (int (length (getRuns st s)) = m \<longleftrightarrow>
            parallelRuns e = Some (int (length (getRuns st s))))))"
  by (auto simp: atMaxRuns_def getRuns_def Let_def isAtCapacity_spec_def configuredMax_spec_def
      split: option.splits)

lemma ex_override_shape:
  "maxRunsOverride (schedObj ex_override 0) = Some 1 \<and> getRuns ex_override 0 = [0]"
  by (simp add: ex_override_def ex_env_def op_defs Let_def)

theorem atMaxRuns_global_only_witness:
  "maxRunsOverride (schedObj ex_two 0) = None \<and> parallelRuns ex_env \<noteq> None \<and>
   isAtCapacity_spec ex_env ex_two 0 = Inr False \<and>
   parallelRuns \<lparr>parallelRuns = None, isMongoDatabase = True\<rparr> = None \<and>
   \<not> atMaxRuns \<lparr>parallelRuns = None, isMongoDatabase = True\<rparr> ex_two 0 \<and>
   maxRunsOverride (schedObj ex_override 0) = Some 1 \<and>
   isAtCapacity_spec ex_env ex_override 0 \<noteq> Inr (atMaxRuns ex_env ex_override 0) \<and>
   isAtCapacity_spec \<lparr>parallelRuns = Some 1, isMongoDatabase = True\<rparr> ex_override 0
     = Inr (atMaxRuns \<lparr>parallelRuns = Some 1, isMongoDatabase = True\<rparr> ex_override 0)"
proof -
  let ?none = "\<lparr>parallelRuns = None, isMongoDatabase = True\<rparr>"
  let ?one = "\<lparr>parallelRuns = Some 1, isMongoDatabase = True\<rparr>"
  have a: "maxRunsOverride (schedObj ex_two 0) = None"
    by (simp add: ex_two_def ex_env_def ex_sobjs_def op_defs Let_def)
  have b: "parallelRuns ex_env \<noteq> None" "parallelRuns ex_env = Some 5"
    by (simp_all add: ex_env_def)
  have c: "\<not> atMaxRuns ex_env ex_two 0"
    by (simp add: atMaxRuns_def ex_two_getRuns ex_env_def)
  have pn: "parallelRuns ?none = None" by simp
  have o: "maxRunsOverride (schedObj ex_override 0) = Some 1" by (simp add: ex_override_shape)
  from atMaxRuns_global_only [where e = ex_env and st = ex_two and s = 0] a b(1)
  have "isAtCapacity_spec ex_env ex_two 0 = Inr (atMaxRuns ex_env ex_two 0)" by blast
  then have w1: "isAtCapacity_spec ex_env ex_two 0 = Inr False" using c by simp
  from atMaxRuns_global_only [where e = ?none and st = ex_two and s = 0] pn
  have w2: "\<not> atMaxRuns ?none ex_two 0" by blast
  from atMaxRuns_global_only [where e = ex_env and st = ex_override and s = 0]
  have "isAtCapacity_spec ex_env ex_override 0 = Inr (atMaxRuns ex_env ex_override 0) \<longleftrightarrow>
      (case maxRunsOverride (schedObj ex_override 0) of
         None \<Rightarrow> parallelRuns ex_env \<noteq> None
       | Some m \<Rightarrow>
           (int (length (getRuns ex_override 0)) = m \<longleftrightarrow>
            parallelRuns ex_env = Some (int (length (getRuns ex_override 0)))))"
    by blast
  then have w3: "isAtCapacity_spec ex_env ex_override 0 \<noteq> Inr (atMaxRuns ex_env ex_override 0)"
    by (simp add: ex_override_shape b(2))
  from atMaxRuns_global_only [where e = ?one and st = ex_override and s = 0]
  have "isAtCapacity_spec ?one ex_override 0 = Inr (atMaxRuns ?one ex_override 0) \<longleftrightarrow>
      (case maxRunsOverride (schedObj ex_override 0) of
         None \<Rightarrow> parallelRuns ?one \<noteq> None
       | Some m \<Rightarrow>
           (int (length (getRuns ex_override 0)) = m \<longleftrightarrow>
            parallelRuns ?one = Some (int (length (getRuns ex_override 0)))))"
    by blast
  then have w4: "isAtCapacity_spec ?one ex_override 0 = Inr (atMaxRuns ?one ex_override 0)"
    by (simp add: ex_override_shape)
  show ?thesis using a b(1) w1 pn w2 o w3 w4 by blast
qed

section \<open>The run registry\<close>

lemma rschedule_stopped [simp]: "rschedule (stopped ro) = rschedule ro"
  by (simp add: stopped_def)

lemma terminateRun_shape:
  "terminateRun st r =
     st\<lparr>runObj := (runObj st)(r := stopped (runObj st r)),
        scheduleRuns := (if r \<in> set (scheduleRuns st) then remove1 r (scheduleRuns st)
                         else butlast (scheduleRuns st))\<rparr>"
  by (simp add: terminateRun_def run_terminate_def run_removeAllListeners_def Let_def
      splice_indexOf_in indexOf_notin splice_minus1 stopped_def)

lemma foldl_terminateRun:
  "distinct (scheduleRuns st) \<Longrightarrow> distinct rs \<Longrightarrow> set rs \<subseteq> set (scheduleRuns st) \<Longrightarrow>
   foldl terminateRun st rs =
     st\<lparr>runObj := (\<lambda>q. if q \<in> set rs then stopped (runObj st q) else runObj st q),
        scheduleRuns := filter (\<lambda>q. q \<notin> set rs) (scheduleRuns st)\<rparr>"
proof (induction rs arbitrary: st)
  case Nil
  then show ?case by simp
next
  case (Cons r rs)
  let ?st1 = "terminateRun st r"
  have r_in: "r \<in> set (scheduleRuns st)" and r_notin: "r \<notin> set rs" using Cons.prems by auto
  have regs: "scheduleRuns ?st1 = remove1 r (scheduleRuns st)"
    using r_in by (simp add: terminateRun_shape)
  have d1: "distinct (scheduleRuns ?st1)" using Cons.prems(1) regs by simp
  have d2: "distinct rs" using Cons.prems(2) by simp
  have sub: "set rs \<subseteq> set (scheduleRuns ?st1)"
    using Cons.prems regs r_notin by auto
  have filt: "filter (\<lambda>q. q \<notin> set rs) (remove1 r (scheduleRuns st)) =
              filter (\<lambda>q. q \<noteq> r \<and> q \<notin> set rs) (scheduleRuns st)"
    using Cons.prems(1)
    by (auto simp: distinct_remove1_removeAll removeAll_filter_not_eq intro: filter_cong)
  have objs: "(\<lambda>q. if q \<in> set rs then stopped (runObj ?st1 q) else runObj ?st1 q) =
              (\<lambda>q. if q \<in> set (r # rs) then stopped (runObj st q) else runObj st q)"
    using r_notin by (auto simp: terminateRun_shape fun_eq_iff)
  have "foldl terminateRun st (r # rs) = foldl terminateRun ?st1 rs" by simp
  also have "\<dots> = ?st1\<lparr>runObj := (\<lambda>q. if q \<in> set rs then stopped (runObj ?st1 q) else runObj ?st1 q),
        scheduleRuns := filter (\<lambda>q. q \<notin> set rs) (scheduleRuns ?st1)\<rparr>"
    by (rule Cons.IH [OF d1 d2 sub])
  also have "\<dots> = st\<lparr>runObj := (\<lambda>q. if q \<in> set (r # rs) then stopped (runObj st q) else runObj st q),
        scheduleRuns := filter (\<lambda>q. q \<notin> set (r # rs)) (scheduleRuns st)\<rparr>"
    unfolding objs regs filt by (simp add: terminateRun_shape r_in)
  finally show ?case .
qed

lemma terminateScheduleRuns_shape:
  "distinct (scheduleRuns st) \<Longrightarrow>
   terminateScheduleRuns st s =
     st\<lparr>runObj := (\<lambda>q. if q \<in> set (getRuns st s) then stopped (runObj st q) else runObj st q),
        scheduleRuns := filter (\<lambda>q. rschedule (runObj st q) \<noteq> s) (scheduleRuns st)\<rparr>"
proof -
  assume d: "distinct (scheduleRuns st)"
  have f: "filter (\<lambda>q. q \<notin> set (getRuns st s)) (scheduleRuns st) =
           filter (\<lambda>q. rschedule (runObj st q) \<noteq> s) (scheduleRuns st)"
    by (rule filter_cong) (auto simp: getRuns_def)
  show ?thesis
    unfolding terminateScheduleRuns_def Let_def
    using foldl_terminateRun [of st "getRuns st s"] d f
    by (simp add: getRuns_def)
qed

lemma keeps_store_refl [simp]: "keeps_store st st"
  by (simp add: keeps_store_def)

lemma keeps_store_trans: "keeps_store a b \<Longrightarrow> keeps_store b c \<Longrightarrow> keeps_store a c"
  by (simp add: keeps_store_def)

lemma keeps_timers_refl [simp]: "keeps_timers st st"
  by (simp add: keeps_timers_def)

lemma keeps_timers_trans: "keeps_timers a b \<Longrightarrow> keeps_timers b c \<Longrightarrow> keeps_timers a c"
  by (simp add: keeps_timers_def)

lemma keeps_store_foldl:
  "(\<And>st x. keeps_store st (f st x)) \<Longrightarrow> keeps_store st (foldl f st xs)"
  by (induction xs arbitrary: st) (auto intro: keeps_store_trans)

lemma keeps_timers_foldl:
  "(\<And>st x. keeps_timers st (f st x)) \<Longrightarrow> keeps_timers st (foldl f st xs)"
  by (induction xs arbitrary: st) (auto intro: keeps_timers_trans)

lemma terminateRun_store: "keeps_store st (terminateRun st r)"
  by (simp add: terminateRun_shape keeps_store_def)

lemma terminateRun_timers: "keeps_timers st (terminateRun st r)"
  by (simp add: terminateRun_shape keeps_timers_def)

lemma terminateScheduleRuns_store: "keeps_store st (terminateScheduleRuns st s)"
  unfolding terminateScheduleRuns_def Let_def by (rule keeps_store_foldl) (rule terminateRun_store)

lemma terminateScheduleRuns_timers: "keeps_timers st (terminateScheduleRuns st s)"
  unfolding terminateScheduleRuns_def Let_def by (rule keeps_timers_foldl) (rule terminateRun_timers)

lemma nextRun_foldl_terminateRun [simp]: "nextRun (foldl terminateRun st rs) = nextRun st"
  by (induction rs arbitrary: st) (auto simp: terminateRun_shape)

lemma logged_foldl_terminateRun [simp]: "logged (foldl terminateRun st rs) = logged st"
  by (induction rs arbitrary: st) (auto simp: terminateRun_shape)

lemma emitted_foldl_terminateRun [simp]: "emitted (foldl terminateRun st rs) = emitted st"
  by (induction rs arbitrary: st) (auto simp: terminateRun_shape)

lemma rschedule_foldl_terminateRun [simp]:
  "rschedule (runObj (foldl terminateRun st rs) q) = rschedule (runObj st q)"
  by (induction rs arbitrary: st) (auto simp: terminateRun_shape)

lemma run_shape:
  "run e st s =
     (let st1 = remediated e st s
      in st1\<lparr>runObj := (runObj st1)(nextRun st1 :=
              \<lparr>rschedule = s, rrunCount = scheduleRunCounts st1 s,
               rmemoryCollection = memoryCollections st1 s, rheaders = headers st1 s,
               terminated = False, started = True, finishListener = True,
               pendingArticleListener = True\<rparr>),
            nextRun := nextRun st1 + 1,
            scheduleRuns := scheduleRuns st1 @ [nextRun st1]\<rparr>)"
  by (simp add: run_def remediated_def new_ScheduleRun_def run_once_finish_def
      run_on_pendingArticle_def run_run_def Let_def)

lemma remediated_store: "keeps_store st (remediated e st s)"
proof (cases "atMaxRuns e st s")
  case True
  have "keeps_store (st\<lparr>logged := logged st @ [Warn_unfinished_runs (length (getRuns st s))]\<rparr>)
          (remediated e st s)"
    using True by (simp add: remediated_def terminateScheduleRuns_store)
  then show ?thesis by (simp add: keeps_store_def)
next
  case False
  then show ?thesis by (simp add: remediated_def)
qed

lemma remediated_timers: "keeps_timers st (remediated e st s)"
proof (cases "atMaxRuns e st s")
  case True
  have "keeps_timers (st\<lparr>logged := logged st @ [Warn_unfinished_runs (length (getRuns st s))]\<rparr>)
          (remediated e st s)"
    using True by (simp add: remediated_def terminateScheduleRuns_timers)
  then show ?thesis by (simp add: keeps_timers_def)
next
  case False
  then show ?thesis by (simp add: remediated_def)
qed

lemma nextRun_remediated [simp]: "nextRun (remediated e st s) = nextRun st"
  by (simp add: remediated_def terminateScheduleRuns_def)

lemma emitted_remediated [simp]: "emitted (remediated e st s) = emitted st"
  by (simp add: remediated_def terminateScheduleRuns_def)

lemma run_store: "keeps_store st (run e st s)"
  using remediated_store [of st e s] by (simp add: run_shape Let_def keeps_store_def)

lemma run_timers: "keeps_timers st (run e st s)"
  using remediated_timers [of st e s] by (simp add: run_shape Let_def keeps_timers_def)

lemma nextRun_run [simp]: "nextRun (run e st s) = nextRun st + 1"
  by (simp add: run_shape Let_def)

lemma run_new_fields:
  "rschedule (runObj (run e st s) (nextRun st)) = s \<and>
   rrunCount (runObj (run e st s) (nextRun st)) = scheduleRunCounts st s \<and>
   rmemoryCollection (runObj (run e st s) (nextRun st)) = memoryCollections st s \<and>
   rheaders (runObj (run e st s) (nextRun st)) = headers st s \<and>
   \<not> terminated (runObj (run e st s) (nextRun st)) \<and>
   started (runObj (run e st s) (nextRun st)) \<and>
   finishListener (runObj (run e st s) (nextRun st)) \<and>
   pendingArticleListener (runObj (run e st s) (nextRun st))"
  using remediated_store [of st e s] by (simp add: run_shape Let_def keeps_store_def)

lemma runs_ok_distinct: "runs_ok st \<Longrightarrow> distinct (scheduleRuns st)"
  by (simp add: runs_ok_def strict_sorted_iff)

lemma runs_ok_init: "runs_ok (init sobjs)"
  by (simp add: runs_ok_def init_def)

lemma sorted_wrt_remove1_less: "sorted_wrt (<) (xs :: nat list) \<Longrightarrow> sorted_wrt (<) (remove1 x xs)"
  by (simp add: strict_sorted_iff sorted_remove1)

lemma sorted_wrt_butlast_less: "sorted_wrt (<) (xs :: nat list) \<Longrightarrow> sorted_wrt (<) (butlast xs)"
  by (simp add: butlast_conv_take)

lemma runs_ok_terminateRun: "runs_ok st \<Longrightarrow> runs_ok (terminateRun st r)"
  by (auto simp: runs_ok_def terminateRun_shape sorted_wrt_remove1_less sorted_wrt_butlast_less
      dest: in_set_butlastD notin_set_remove1)

lemma runs_ok_foldl_terminateRun: "runs_ok st \<Longrightarrow> runs_ok (foldl terminateRun st rs)"
  by (induction rs arbitrary: st) (auto simp: runs_ok_terminateRun)

lemma runs_ok_remediated: "runs_ok st \<Longrightarrow> runs_ok (remediated e st s)"
proof -
  assume ok: "runs_ok st"
  have "runs_ok (st\<lparr>logged := logged st @ [Warn_unfinished_runs (length (getRuns st s))]\<rparr>)"
    using ok by (simp add: runs_ok_def)
  then show ?thesis
    using ok by (simp add: remediated_def terminateScheduleRuns_def runs_ok_foldl_terminateRun)
qed

lemma runs_ok_run: "runs_ok st \<Longrightarrow> runs_ok (run e st s)"
proof -
  assume "runs_ok st"
  then have ok: "runs_ok (remediated e st s)" by (rule runs_ok_remediated)
  then show ?thesis
    by (auto simp: run_shape Let_def runs_ok_def sorted_wrt_append less_Suc_eq)
qed

lemma remediated_at_max:
  assumes ok: "runs_ok st" and full: "atMaxRuns e st s"
  shows "remediated e st s =
     st\<lparr>logged := logged st @ [Warn_unfinished_runs (length (getRuns st s))],
        runObj := (\<lambda>q. if q \<in> set (getRuns st s) then stopped (runObj st q) else runObj st q),
        scheduleRuns := filter (\<lambda>q. rschedule (runObj st q) \<noteq> s) (scheduleRuns st)\<rparr>"
proof -
  let ?stw = "st\<lparr>logged := logged st @ [Warn_unfinished_runs (length (getRuns st s))]\<rparr>"
  have d: "distinct (scheduleRuns ?stw)" using runs_ok_distinct [OF ok] by simp
  have g: "getRuns ?stw s = getRuns st s" by (simp add: getRuns_def)
  show ?thesis
    using full terminateScheduleRuns_shape [OF d, of s] g
    by (simp add: remediated_def cong: if_cong)
qed

text \<open>
  Claim C2. When the schedule is at its configured maximum, \<open>run\<close> logs one warning
  naming the current run count, terminates and unsubscribes every registered run of
  the schedule and removes each from the registry, then registers and starts a new run:
  afterwards the registry holds exactly one run of the schedule, the new one, and the
  runs of every other schedule are as before.
\<close>

theorem run_at_capacity:
  assumes ok: "runs_ok st" and full: "atMaxRuns e st s"
  shows "logged (run e st s) = logged st @ [Warn_unfinished_runs (length (getRuns st s))] \<and>
    (\<forall>q \<in> set (getRuns st s).
        terminated (runObj (run e st s) q) \<and> \<not> finishListener (runObj (run e st s) q) \<and>
        \<not> pendingArticleListener (runObj (run e st s) q) \<and> q \<notin> set (scheduleRuns (run e st s))) \<and>
    scheduleRuns (run e st s) =
      filter (\<lambda>q. rschedule (runObj st q) \<noteq> s) (scheduleRuns st) @ [nextRun st] \<and>
    getRuns (run e st s) s = [nextRun st] \<and>
    started (runObj (run e st s) (nextRun st)) \<and> \<not> terminated (runObj (run e st s) (nextRun st)) \<and>
    finishListener (runObj (run e st s) (nextRun st)) \<and>
    (\<forall>s'. s' \<noteq> s \<longrightarrow> getRuns (run e st s) s' = getRuns st s')"
proof -
  let ?st' = "run e st s"
  let ?n = "nextRun st"
  have lt: "\<And>q. q \<in> set (scheduleRuns st) \<Longrightarrow> q \<noteq> ?n" using ok by (auto simp: runs_ok_def)
  have rem: "remediated e st s =
     st\<lparr>logged := logged st @ [Warn_unfinished_runs (length (getRuns st s))],
        runObj := (\<lambda>q. if q \<in> set (getRuns st s) then stopped (runObj st q) else runObj st q),
        scheduleRuns := filter (\<lambda>q. rschedule (runObj st q) \<noteq> s) (scheduleRuns st)\<rparr>"
    by (rule remediated_at_max [OF ok full])
  have lg: "logged ?st' = logged st @ [Warn_unfinished_runs (length (getRuns st s))]"
    by (simp add: run_shape Let_def rem)
  have regs: "scheduleRuns ?st' =
      filter (\<lambda>q. rschedule (runObj st q) \<noteq> s) (scheduleRuns st) @ [?n]"
    by (simp add: run_shape Let_def rem)
  have old: "\<And>q. q \<in> set (scheduleRuns st) \<Longrightarrow>
      runObj ?st' q = (if q \<in> set (getRuns st s) then stopped (runObj st q) else runObj st q)"
    using lt by (simp add: run_shape Let_def rem)
  have sch: "\<And>q. q \<in> set (scheduleRuns st) \<Longrightarrow> rschedule (runObj ?st' q) = rschedule (runObj st q)"
    by (simp add: old)
  have stopped_all: "\<forall>q \<in> set (getRuns st s).
        terminated (runObj ?st' q) \<and> \<not> finishListener (runObj ?st' q) \<and>
        \<not> pendingArticleListener (runObj ?st' q) \<and> q \<notin> set (scheduleRuns ?st')"
  proof
    fix q assume q: "q \<in> set (getRuns st s)"
    then have qin: "q \<in> set (scheduleRuns st)" and qs: "rschedule (runObj st q) = s"
      by (auto simp: getRuns_def)
    show "terminated (runObj ?st' q) \<and> \<not> finishListener (runObj ?st' q) \<and>
        \<not> pendingArticleListener (runObj ?st' q) \<and> q \<notin> set (scheduleRuns ?st')"
      using q qs lt [OF qin] by (simp add: old [OF qin] regs stopped_def)
  qed
  have new: "rschedule (runObj ?st' ?n) = s" "started (runObj ?st' ?n)"
    "\<not> terminated (runObj ?st' ?n)" "finishListener (runObj ?st' ?n)"
    using run_new_fields [of e st s] by simp_all
  have others: "filter (\<lambda>r. rschedule (runObj ?st' r) = t)
        (filter (\<lambda>q. rschedule (runObj st q) \<noteq> s) (scheduleRuns st)) =
      (if t = s then [] else getRuns st t)" for t
  proof -
    have "filter (\<lambda>r. rschedule (runObj ?st' r) = t)
        (filter (\<lambda>q. rschedule (runObj st q) \<noteq> s) (scheduleRuns st)) =
      filter (\<lambda>q. rschedule (runObj st q) \<noteq> s \<and> rschedule (runObj st q) = t) (scheduleRuns st)"
      unfolding filter_filter by (rule filter_cong) (auto simp: sch)
    also have "\<dots> = (if t = s then [] else getRuns st t)"
      by (auto simp: getRuns_def intro: filter_cong)
    finally show ?thesis .
  qed
  have mine: "getRuns ?st' s = [?n]"
    unfolding getRuns_def regs using others [of s] new(1) by simp
  have theirs: "\<forall>s'. s' \<noteq> s \<longrightarrow> getRuns ?st' s' = getRuns st s'"
    unfolding getRuns_def regs using others new(1) by (simp add: getRuns_def)
  show ?thesis using lg stopped_all regs mine new theirs by blast
qed

lemma stopped_finishListener [simp]: "stopped (ro\<lparr>finishListener := b\<rparr>) = stopped ro"
  by (simp add: stopped_def)

lemma emit_finish_shape:
  "emit_finish st r =
     (if finishListener (runObj st r)
      then incrementRunCount (terminateRun st r) (rschedule (runObj st r))
      else st)"
  by (simp add: emit_finish_def Let_def terminateRun_shape incrementRunCount_def)

lemma incrementRunCount_shape:
  "incrementRunCount st s =
     st\<lparr>scheduleRunCounts := (scheduleRunCounts st)(s \<mapsto> js_plus1 (scheduleRunCounts st s))\<rparr>"
  by (simp add: incrementRunCount_def Let_def)

lemma intervals_foldl_clearInterval:
  "foldl clearInterval st hs =
     st\<lparr>intervals := filter (\<lambda>i. ihandle i \<notin> set hs) (intervals st)\<rparr>"
proof (induction hs arbitrary: st)
  case Nil
  then show ?case by simp
next
  case (Cons h hs)
  have f: "filter (\<lambda>i. ihandle i \<notin> set hs) (filter (\<lambda>i. ihandle i \<noteq> h) (intervals st)) =
        filter (\<lambda>i. ihandle i \<notin> set (h # hs)) (intervals st)"
    unfolding filter_filter by (rule filter_cong) auto
  have "foldl clearInterval st (h # hs) = foldl clearInterval (clearInterval st h) hs"
    by simp
  also have "\<dots> = (clearInterval st h)\<lparr>intervals :=
      filter (\<lambda>i. ihandle i \<notin> set hs) (intervals (clearInterval st h))\<rparr>"
    by (rule Cons.IH)
  also have "\<dots> = st\<lparr>intervals := filter (\<lambda>i. ihandle i \<notin> set (h # hs)) (intervals st)\<rparr>"
    unfolding f [symmetric] by (simp add: clearInterval_def)
  finally show ?case .
qed

lemma clearTimers_shape:
  "clearTimers st =
     st\<lparr>intervals := filter (\<lambda>i. ihandle i \<notin> set (timers st)) (intervals st), timers := []\<rparr>"
  by (cases "timers st = []") (simp_all add: clearTimers_def intervals_foldl_clearInterval)

lemma clearTimers_store: "keeps_store st (clearTimers st)"
  by (simp add: clearTimers_shape keeps_store_def)

lemma beginTimers_step_shape:
  "beginTimers_step e st s =
     (run e st s)\<lparr>intervals := intervals st @
         [\<lparr>ihandle = nextHandle st, ischedule = s,
           idelay = timer_period (refreshRateMinutes (schedObj st s) * 60000)\<rparr>],
       nextHandle := nextHandle st + 1,
       timers := timers st @ [nextHandle st]\<rparr>"
  using run_store [of st e s] run_timers [of st e s]
  by (simp add: beginTimers_step_def setInterval_def Let_def keeps_store_def keeps_timers_def)

lemma beginTimers_step_store: "keeps_store st (beginTimers_step e st s)"
  using run_store [of st e s] by (simp add: beginTimers_step_shape keeps_store_def)

lemma beginTimers_store: "keeps_store st (beginTimers e st)"
proof -
  have "keeps_store (clearTimers st) (beginTimers e st)"
    unfolding beginTimers_def Let_def by (rule keeps_store_foldl) (rule beginTimers_step_store)
  with clearTimers_store [of st] show ?thesis by (rule keeps_store_trans)
qed

lemma fire_store: "keeps_store st (fire e st h)"
  by (simp add: fire_def run_store split: option.split)

lemma emit_pendingArticle_store: "keeps_store st (emit_pendingArticle st r a)"
  by (simp add: emit_pendingArticle_def onPendingArticle_def keeps_store_def Let_def)

text \<open>Every operation keeps the registry well-formed.\<close>

lemma runs_ok_cong:
  "scheduleRuns st' = scheduleRuns st \<Longrightarrow> nextRun st' = nextRun st \<Longrightarrow> runs_ok st' = runs_ok st"
  by (simp add: runs_ok_def)

lemma runs_ok_emit_finish: "runs_ok st \<Longrightarrow> runs_ok (emit_finish st r)"
proof -
  assume ok: "runs_ok st"
  have "runs_ok (incrementRunCount (terminateRun st r) (rschedule (runObj st r))) =
        runs_ok (terminateRun st r)"
    by (rule runs_ok_cong) (simp_all add: incrementRunCount_shape)
  with ok show ?thesis by (simp add: emit_finish_shape runs_ok_terminateRun)
qed

lemma runs_ok_clearTimers: "runs_ok st \<Longrightarrow> runs_ok (clearTimers st)"
  by (simp add: clearTimers_shape runs_ok_def)

lemma runs_ok_beginTimers_step: "runs_ok st \<Longrightarrow> runs_ok (beginTimers_step e st s)"
proof -
  assume "runs_ok st"
  then have "runs_ok (run e st s)" by (rule runs_ok_run)
  then show ?thesis by (simp add: beginTimers_step_shape runs_ok_def)
qed

lemma runs_ok_beginTimers_fold:
  "runs_ok st \<Longrightarrow> runs_ok (foldl (beginTimers_step e) st ss)"
  by (induction ss arbitrary: st) (auto simp: runs_ok_beginTimers_step)

lemma runs_ok_beginTimers: "runs_ok st \<Longrightarrow> runs_ok (beginTimers e st)"
  by (simp add: beginTimers_def Let_def runs_ok_beginTimers_fold runs_ok_clearTimers)

lemma runs_ok_fire: "runs_ok st \<Longrightarrow> runs_ok (fire e st h)"
  by (simp add: fire_def runs_ok_run split: option.split)

lemma runs_ok_addSchedule: "runs_ok st \<Longrightarrow> runs_ok (addSchedule e st s)"
  by (simp add: addSchedule_def new_object_def Let_def runs_ok_def)

lemma runs_ok_step: "runs_ok st \<Longrightarrow> runs_ok (step e st ev)"
proof (cases ev)
  case (AddSchedule s)
  assume "runs_ok st" then show ?thesis using AddSchedule by (simp add: runs_ok_addSchedule)
next
  case (Dispatch s)
  assume "runs_ok st" then show ?thesis using Dispatch by (simp add: runs_ok_run)
next
  case (Finish r)
  assume "runs_ok st" then show ?thesis using Finish by (simp add: runs_ok_emit_finish)
next
  case (PendingArticle r a)
  assume "runs_ok st" then show ?thesis using PendingArticle
    by (simp add: emit_pendingArticle_def onPendingArticle_def Let_def runs_ok_def)
next
  case (TerminateRun r)
  assume "runs_ok st" then show ?thesis using TerminateRun by (simp add: runs_ok_terminateRun)
next
  case (TerminateScheduleRuns s)
  assume "runs_ok st" then show ?thesis using TerminateScheduleRuns
    by (simp add: terminateScheduleRuns_def runs_ok_foldl_terminateRun)
next
  case BeginTimers
  assume "runs_ok st" then show ?thesis using BeginTimers by (simp add: runs_ok_beginTimers)
next
  case ClearTimers
  assume "runs_ok st" then show ?thesis using ClearTimers by (simp add: runs_ok_clearTimers)
next
  case (Fire h)
  assume "runs_ok st" then show ?thesis using Fire by (simp add: runs_ok_fire)
next
  case (AddDebugFeedID f)
  assume "runs_ok st" then show ?thesis using AddDebugFeedID
    by (simp add: addDebugFeedID_def runs_ok_def)
next
  case (RemoveDebugFeedID f)
  assume "runs_ok st" then show ?thesis using RemoveDebugFeedID
    by (simp add: removeDebugFeedID_def runs_ok_def)
next
  case (WriteHeaders r k v)
  assume "runs_ok st" then show ?thesis using WriteHeaders
    by (simp add: write_cache_def runs_ok_def split: option.split)
next
  case (WriteMemory r k v)
  assume "runs_ok st" then show ?thesis using WriteMemory
    by (simp add: write_cache_def runs_ok_def split: option.split)
qed

lemma runs_ok_exec: "runs_ok st \<Longrightarrow> runs_ok (exec e st evs)"
  unfolding exec_def by (induction evs arbitrary: st) (auto simp: runs_ok_step)

lemma runs_ok_reachable: "runs_ok (exec e (init sobjs) evs)"
  by (rule runs_ok_exec) (rule runs_ok_init)

lemma ex_two_shape:
  "scheduleRuns ex_two = [0, 1] \<and> nextRun ex_two = 2 \<and> logged ex_two = [] \<and>
   rschedule (runObj ex_two 0) = 0 \<and> rschedule (runObj ex_two (Suc 0)) = 0"
  by (simp add: ex_two_def ex_env_def op_defs Let_def)

lemma runs_ok_ex_two: "runs_ok ex_two"
  unfolding ex_two_def by (rule runs_ok_reachable)

theorem run_at_capacity_witness:
  "runs_ok ex_two \<and> atMaxRuns \<lparr>parallelRuns = Some 2, isMongoDatabase = True\<rparr> ex_two 0 \<and>
   logged (run \<lparr>parallelRuns = Some 2, isMongoDatabase = True\<rparr> ex_two 0) = [Warn_unfinished_runs 2] \<and>
   scheduleRuns (run \<lparr>parallelRuns = Some 2, isMongoDatabase = True\<rparr> ex_two 0) = [2] \<and>
   getRuns (run \<lparr>parallelRuns = Some 2, isMongoDatabase = True\<rparr> ex_two 0) 0 = [2] \<and>
   terminated (runObj (run \<lparr>parallelRuns = Some 2, isMongoDatabase = True\<rparr> ex_two 0) 0) \<and>
   terminated (runObj (run \<lparr>parallelRuns = Some 2, isMongoDatabase = True\<rparr> ex_two 0) 1)"
proof -
  have ok: "runs_ok ex_two" by (rule runs_ok_ex_two)
  have full: "atMaxRuns \<lparr>parallelRuns = Some 2, isMongoDatabase = True\<rparr> ex_two 0"
    by (simp add: atMaxRuns_def ex_two_getRuns)
  show ?thesis
    using ok full run_at_capacity [OF ok full]
    by (simp add: ex_two_getRuns ex_two_shape)
qed

text \<open>
  Claim C9. For a run that is not in the registry, \<open>indexOf\<close> yields \<open>-1\<close> and
  \<open>splice(-1, 1)\<close> deletes the last element: when the registry is not empty,
  \<open>terminateRun\<close> does not fail and removes the last entry, which is the most recently
  registered of the runs still registered, while the run itself is still terminated and
  its listeners are removed.
\<close>

theorem terminateRun_unregistered:
  assumes "r \<notin> set (scheduleRuns st)" and "scheduleRuns st \<noteq> []"
  shows "indexOf (scheduleRuns st) r = - 1 \<and>
    scheduleRuns (terminateRun st r) = butlast (scheduleRuns st) \<and>
    terminated (runObj (terminateRun st r) r) \<and>
    \<not> finishListener (runObj (terminateRun st r) r) \<and>
    \<not> pendingArticleListener (runObj (terminateRun st r) r) \<and>
    (runs_ok st \<longrightarrow>
       last (scheduleRuns st) \<notin> set (scheduleRuns (terminateRun st r)) \<and>
       (\<forall>q \<in> set (scheduleRuns st). q \<le> last (scheduleRuns st)))"
proof -
  have shape: "scheduleRuns (terminateRun st r) = butlast (scheduleRuns st)"
    using assms(1) by (simp add: terminateRun_shape)
  have flags: "terminated (runObj (terminateRun st r) r) \<and>
    \<not> finishListener (runObj (terminateRun st r) r) \<and>
    \<not> pendingArticleListener (runObj (terminateRun st r) r)"
    by (simp add: terminateRun_shape stopped_def)
  have recent: "last (scheduleRuns st) \<notin> set (butlast (scheduleRuns st)) \<and>
       (\<forall>q \<in> set (scheduleRuns st). q \<le> last (scheduleRuns st))" if ok: "runs_ok st"
  proof -
    obtain xs x where eq: "scheduleRuns st = xs @ [x]"
      using assms(2) by (metis append_butlast_last_id)
    have "sorted_wrt (<) (xs @ [x])" using ok eq by (simp add: runs_ok_def)
    then have "\<forall>q \<in> set xs. q < x" by (simp add: sorted_wrt_append)
    then show ?thesis by (auto simp: eq)
  qed
  have idx: "indexOf (scheduleRuns st) r = - 1"
    using assms(1) by (rule indexOf_notin)
  show ?thesis using idx shape flags recent by simp
qed

lemma ex_terminated_shape:
  "scheduleRuns ex_terminated = [1, 2] \<and> nextRun ex_terminated = 3 \<and>
   terminated (runObj ex_terminated 0) \<and> \<not> terminated (runObj ex_terminated 2) \<and>
   finishListener (runObj ex_terminated 2)"
  by (simp add: ex_terminated_def ex_env_def op_defs Let_def)

theorem terminateRun_unregistered_witness:
  "0 \<notin> set (scheduleRuns ex_terminated) \<and> scheduleRuns ex_terminated \<noteq> [] \<and>
   runs_ok ex_terminated \<and>
   scheduleRuns (terminateRun ex_terminated 0) = [1] \<and>
   terminated (runObj (terminateRun ex_terminated 0) 0)"
proof -
  have a: "0 \<notin> set (scheduleRuns ex_terminated)" by (simp add: ex_terminated_shape)
  have b: "scheduleRuns ex_terminated \<noteq> []" by (simp add: ex_terminated_shape)
  have ok: "runs_ok ex_terminated" unfolding ex_terminated_def by (rule runs_ok_reachable)
  show ?thesis
    using a b ok terminateRun_unregistered [OF a b] by (simp add: ex_terminated_shape)
qed

text \<open>
  Claim C6, as the code has it. \<open>terminateRun\<close> has no error branch, and for a run that
  is not registered it changes the registry: with runs 1 and 2 registered, terminating
  run 0 again removes run 2, which stays active and subscribed.
\<close>

theorem terminateRun_unknown_counterexample:
  "0 \<notin> set (scheduleRuns ex_terminated) \<and>
   scheduleRuns ex_terminated = [1, 2] \<and>
   scheduleRuns (terminateRun ex_terminated 0) = [1] \<and>
   \<not> terminated (runObj (terminateRun ex_terminated 0) 2) \<and>
   finishListener (runObj (terminateRun ex_terminated 0) 2)"
  by (simp add: ex_terminated_def ex_env_def op_defs Let_def)

text \<open>
  Claim C6, amended. \<open>terminateRun\<close> never fails. For a run that is not registered it
  still terminates the run and removes its listeners; it touches no other run object,
  no counter, cache, schedule or timer and logs nothing; it adds no entry to the
  registry, and an empty registry stays empty.
\<close>

theorem terminateRun_total:
  assumes "r \<notin> set (scheduleRuns st)"
  shows "runObj (terminateRun st r) = (runObj st)(r := stopped (runObj st r)) \<and>
    terminated (runObj (terminateRun st r) r) \<and>
    \<not> finishListener (runObj (terminateRun st r) r) \<and>
    \<not> pendingArticleListener (runObj (terminateRun st r) r) \<and>
    keeps_store st (terminateRun st r) \<and> keeps_timers st (terminateRun st r) \<and>
    logged (terminateRun st r) = logged st \<and>
    set (scheduleRuns (terminateRun st r)) \<subseteq> set (scheduleRuns st) \<and>
    (scheduleRuns st = [] \<longrightarrow> scheduleRuns (terminateRun st r) = [])"
  using assms terminateRun_store [of st r] terminateRun_timers [of st r]
  by (auto simp: terminateRun_shape stopped_def dest: in_set_butlastD)

lemma ex_completed_shape:
  "scheduleRuns ex_completed = [] \<and> nextRun ex_completed = 1 \<and>
   scheduleRunCounts ex_completed 0 = Some (Num 1) \<and> schedules ex_completed = [0] \<and>
   headers ex_completed 0 = Some 1 \<and> memoryCollections ex_completed 0 = Some 0 \<and>
   nextObj ex_completed = 2"
  by (simp add: ex_completed_def ex_env_def op_defs Let_def)

lemma ex_orphan_shape:
  "scheduleRuns ex_orphan = [1] \<and> 2 \<notin> set (scheduleRuns ex_orphan) \<and>
   \<not> terminated (runObj ex_orphan 2) \<and> finishListener (runObj ex_orphan 2) \<and>
   pendingArticleListener (runObj ex_orphan 2) \<and>
   \<not> terminated (runObj ex_orphan (Suc 0)) \<and> finishListener (runObj ex_orphan (Suc 0)) \<and>
   scheduleRunCounts ex_orphan 0 = Some (Num 0) \<and> headers ex_orphan 0 = Some 1"
  by (simp add: ex_orphan_def ex_env_def op_defs Let_def)

theorem terminateRun_total_witness:
  "2 \<notin> set (scheduleRuns ex_orphan) \<and> scheduleRuns ex_orphan = [1] \<and>
   \<not> terminated (runObj ex_orphan 2) \<and> finishListener (runObj ex_orphan 2) \<and>
   terminated (runObj (terminateRun ex_orphan 2) 2) \<and>
   \<not> finishListener (runObj (terminateRun ex_orphan 2) 2) \<and>
   \<not> pendingArticleListener (runObj (terminateRun ex_orphan 2) 2) \<and>
   \<not> terminated (runObj (terminateRun ex_orphan 2) 1) \<and>
   finishListener (runObj (terminateRun ex_orphan 2) 1) \<and>
   scheduleRunCounts (terminateRun ex_orphan 2) 0 = Some (Num 0) \<and>
   headers (terminateRun ex_orphan 2) 0 = Some 1 \<and>
   set (scheduleRuns (terminateRun ex_orphan 2)) \<subseteq> {1} \<and>
   0 \<notin> set (scheduleRuns ex_completed) \<and> scheduleRuns ex_completed = [] \<and>
   scheduleRuns (terminateRun ex_completed 0) = []"
proof -
  have a: "2 \<notin> set (scheduleRuns ex_orphan)" by (simp add: ex_orphan_shape)
  have b: "0 \<notin> set (scheduleRuns ex_completed)" by (simp add: ex_completed_shape)
  have c: "scheduleRuns ex_completed = []" by (simp add: ex_completed_shape)
  show ?thesis
    using a b c terminateRun_total [OF a] terminateRun_total [OF b]
    by (simp add: ex_orphan_shape stopped_def keeps_store_def)
qed


section \<open>Sequences of operations\<close>

lemma exec_Nil [simp]: "exec e st [] = st"
  by (simp add: exec_def)

lemma exec_Cons [simp]: "exec e st (ev # evs) = exec e (step e st ev) evs"
  by (simp add: exec_def)

lemma exec_append: "exec e st (xs @ ys) = exec e (exec e st xs) ys"
  by (simp add: exec_def)

lemma addSchedule_other:
  "s' \<noteq> s \<Longrightarrow>
   scheduleRunCounts (addSchedule e st s') s = scheduleRunCounts st s \<and>
   memoryCollections (addSchedule e st s') s = memoryCollections st s \<and>
   headers (addSchedule e st s') s = headers st s"
  by (simp add: addSchedule_def new_object_def Let_def)

lemma write_cache_frame:
  "scheduleRunCounts (write_cache st a k v) = scheduleRunCounts st \<and>
   memoryCollections (write_cache st a k v) = memoryCollections st \<and>
   headers (write_cache st a k v) = headers st"
  by (simp add: write_cache_def split: option.split)

lemma emit_finish_store:
  "memoryCollections (emit_finish st r) = memoryCollections st \<and>
   headers (emit_finish st r) = headers st \<and>
   scheduleRunCounts (emit_finish st r) =
     (if finishListener (runObj st r)
      then (scheduleRunCounts st)(rschedule (runObj st r) \<mapsto>
             js_plus1 (scheduleRunCounts st (rschedule (runObj st r))))
      else scheduleRunCounts st)"
  using terminateRun_store [of st r]
  by (simp add: emit_finish_shape incrementRunCount_shape keeps_store_def)

text \<open>
  What a step does to the three per-schedule tables, at a schedule that the step does
  not register again.
\<close>

lemma step_tables:
  assumes "ev \<noteq> AddSchedule s"
  shows "scheduleRunCounts (step e st ev) s =
           (if completes st ev s then Some (js_plus1 (scheduleRunCounts st s))
            else scheduleRunCounts st s) \<and>
         memoryCollections (step e st ev) s = memoryCollections st s \<and>
         headers (step e st ev) s = headers st s"
proof (cases ev)
  case (AddSchedule s')
  then show ?thesis using assms addSchedule_other [of s' s e st] by (simp add: completes_def)
next
  case (Dispatch s')
  then show ?thesis using run_store [of st e s'] by (simp add: completes_def keeps_store_def)
next
  case (Finish r)
  then show ?thesis using emit_finish_store [of st r] by (auto simp: completes_def)
next
  case (PendingArticle r a)
  then show ?thesis using emit_pendingArticle_store [of st r a]
    by (simp add: completes_def keeps_store_def)
next
  case (TerminateRun r)
  then show ?thesis using terminateRun_store [of st r] by (simp add: completes_def keeps_store_def)
next
  case (TerminateScheduleRuns s')
  then show ?thesis using terminateScheduleRuns_store [of st s']
    by (simp add: completes_def keeps_store_def)
next
  case BeginTimers
  then show ?thesis using beginTimers_store [of st e] by (simp add: completes_def keeps_store_def)
next
  case ClearTimers
  then show ?thesis using clearTimers_store [of st] by (simp add: completes_def keeps_store_def)
next
  case (Fire h)
  then show ?thesis using fire_store [of st e h] by (simp add: completes_def keeps_store_def)
next
  case (AddDebugFeedID f)
  then show ?thesis by (simp add: completes_def addDebugFeedID_def)
next
  case (RemoveDebugFeedID f)
  then show ?thesis by (simp add: completes_def removeDebugFeedID_def)
next
  case (WriteHeaders r k v)
  then show ?thesis using write_cache_frame [of st "rheaders (runObj st r)" k v]
    by (simp add: completes_def)
next
  case (WriteMemory r k v)
  then show ?thesis using write_cache_frame [of st "rmemoryCollection (runObj st r)" k v]
    by (simp add: completes_def)
qed

lemma exec_counts:
  "AddSchedule s \<notin> set evs \<Longrightarrow> scheduleRunCounts st s = Some (Num c) \<Longrightarrow>
   scheduleRunCounts (exec e st evs) s = Some (Num (c + completions e st evs s))"
proof (induction evs arbitrary: st c)
  case Nil
  then show ?case by simp
next
  case (Cons ev evs)
  then have ne: "ev \<noteq> AddSchedule s" and rest: "AddSchedule s \<notin> set evs" by auto
  show ?case
  proof (cases "completes st ev s")
    case True
    then have "scheduleRunCounts (step e st ev) s = Some (Num (c + 1))"
      using step_tables [OF ne, of e st] Cons.prems(2) by simp
    from Cons.IH [OF rest this] True show ?thesis by simp
  next
    case False
    then have "scheduleRunCounts (step e st ev) s = Some (Num c)"
      using step_tables [OF ne, of e st] Cons.prems(2) by simp
    from Cons.IH [OF rest this] False show ?thesis by simp
  qed
qed

lemma exec_caches:
  "AddSchedule s \<notin> set evs \<Longrightarrow>
   memoryCollections (exec e st evs) s = memoryCollections st s \<and>
   headers (exec e st evs) s = headers st s"
proof (induction evs arbitrary: st)
  case Nil
  then show ?case by simp
next
  case (Cons ev evs)
  then have ne: "ev \<noteq> AddSchedule s" and rest: "AddSchedule s \<notin> set evs" by auto
  show ?case using Cons.IH [OF rest, of "step e st ev"] step_tables [OF ne, of e st] by simp
qed

lemma completions_append:
  "completions e st (xs @ ys) s = completions e st xs s + completions e (exec e st xs) ys s"
  by (induction xs arbitrary: st) auto

lemma completions_take_mono:
  "m \<le> n \<Longrightarrow> completions e st (take m evs) s \<le> completions e st (take n evs) s"
proof -
  assume "m \<le> n"
  then have "take n evs = take m evs @ take (n - m) (drop m evs)"
    by (metis le_add_diff_inverse take_add)
  then show ?thesis by (simp add: completions_append)
qed

section \<open>The run counter\<close>

text \<open>
  Claim C3, as the code has it. \<open>addSchedule\<close> sets the counter to 0, also for a
  schedule that is registered already, so the counter can decrease: after one normal
  completion it is 1, and registering the schedule again makes it 0.
\<close>

theorem run_counter_counterexample:
  "scheduleRunCounts (exec ex_env (init ex_sobjs) [AddSchedule 0, Dispatch 0, Finish 0]) 0
     = Some (Num 1) \<and>
   scheduleRunCounts
     (exec ex_env (init ex_sobjs) [AddSchedule 0, Dispatch 0, Finish 0, AddSchedule 0]) 0
     = Some (Num 0)"
  by (simp add: ex_env_def op_defs Let_def)

lemma addSchedule_counter: "scheduleRunCounts (addSchedule e st s) s = Some (Num 0)"
  by (simp add: addSchedule_def new_object_def Let_def split: prod.split)

text \<open>
  Claim C3, amended. After \<open>addSchedule\<close> the counter of the schedule is 0. Along
  every sequence of operations that does not register the schedule again, the counter
  equals the number of normal completions of its runs so far (each adds exactly 1), it
  never decreases, and forced termination (\<open>terminateRun\<close>, \<open>terminateScheduleRuns\<close>,
  also through a dispatch at capacity) leaves every counter unchanged.
\<close>

theorem run_counter_completions:
  assumes "AddSchedule s \<notin> set evs"
  shows "scheduleRunCounts (addSchedule e st s) s = Some (Num 0) \<and>
    (\<forall>n. scheduleRunCounts (exec e (addSchedule e st s) (take n evs)) s =
          Some (Num (completions e (addSchedule e st s) (take n evs) s))) \<and>
    (\<forall>m n. m \<le> n \<longrightarrow>
       completions e (addSchedule e st s) (take m evs) s
         \<le> completions e (addSchedule e st s) (take n evs) s) \<and>
    (\<forall>st' r. scheduleRunCounts (terminateRun st' r) = scheduleRunCounts st') \<and>
    (\<forall>st' s'. scheduleRunCounts (terminateScheduleRuns st' s') = scheduleRunCounts st') \<and>
    (\<forall>st' s'. scheduleRunCounts (run e st' s') = scheduleRunCounts st')"
proof -
  have start: "scheduleRunCounts (addSchedule e st s) s = Some (Num 0)"
    by (rule addSchedule_counter)
  have pre: "scheduleRunCounts (exec e (addSchedule e st s) (take n evs)) s =
          Some (Num (completions e (addSchedule e st s) (take n evs) s))" for n
  proof -
    have "AddSchedule s \<notin> set (take n evs)" using assms by (auto dest: in_set_takeD)
    from exec_counts [OF this start, of e] show ?thesis by simp
  qed
  have mono: "\<forall>m n. m \<le> n \<longrightarrow>
       completions e (addSchedule e st s) (take m evs) s
         \<le> completions e (addSchedule e st s) (take n evs) s"
    by (simp add: completions_take_mono)
  have t1: "\<forall>st' r. scheduleRunCounts (terminateRun st' r) = scheduleRunCounts st'"
    using terminateRun_store by (simp add: keeps_store_def)
  have t2: "\<forall>st' s'. scheduleRunCounts (terminateScheduleRuns st' s') = scheduleRunCounts st'"
    using terminateScheduleRuns_store by (simp add: keeps_store_def)
  have t3: "\<forall>st' s'. scheduleRunCounts (run e st' s') = scheduleRunCounts st'"
    using run_store by (simp add: keeps_store_def)
  show ?thesis using start pre mono t1 t2 t3 by blast
qed

theorem run_counter_completions_witness:
  "AddSchedule 0 \<notin> set [Dispatch 0, Dispatch 0, TerminateRun 0, Finish 1, Finish 0] \<and>
   completions ex_env (addSchedule ex_env (init ex_sobjs) 0)
     [Dispatch 0, Dispatch 0, TerminateRun 0, Finish 1, Finish 0] 0 = 1 \<and>
   scheduleRunCounts (exec ex_env (addSchedule ex_env (init ex_sobjs) 0)
     [Dispatch 0, Dispatch 0, TerminateRun 0, Finish 1, Finish 0]) 0 = Some (Num 1)"
proof -
  let ?evs = "[Dispatch 0, Dispatch 0, TerminateRun 0, Finish 1, Finish 0]"
  have a: "AddSchedule 0 \<notin> set ?evs" by simp
  have c: "completions ex_env (addSchedule ex_env (init ex_sobjs) 0) ?evs 0 = 1"
    by (simp add: ex_env_def op_defs completes_def Let_def)
  have "scheduleRunCounts (exec ex_env (addSchedule ex_env (init ex_sobjs) 0) (take 5 ?evs)) 0 =
          Some (Num (completions ex_env (addSchedule ex_env (init ex_sobjs) 0) (take 5 ?evs) 0))"
    using run_counter_completions [OF a, of ex_env "init ex_sobjs"] by blast
  then show ?thesis using a c by simp
qed

section \<open>The per-schedule store\<close>

text \<open>
  Claim C4, as the code has it. \<open>addSchedule\<close> has no check for a schedule that is
  present already: called again for schedule 0 it adds a second entry to the schedule
  list, resets the counter from 1 to 0 and replaces both caches with fresh objects.
\<close>

theorem addSchedule_again_counterexample:
  "schedules ex_completed = [0] \<and>
   schedules (addSchedule ex_env ex_completed 0) = [0, 0] \<and>
   scheduleRunCounts ex_completed 0 = Some (Num 1) \<and>
   scheduleRunCounts (addSchedule ex_env ex_completed 0) 0 = Some (Num 0) \<and>
   headers ex_completed 0 = Some 1 \<and>
   headers (addSchedule ex_env ex_completed 0) 0 = Some 3 \<and>
   memoryCollections ex_completed 0 = Some 0 \<and>
   memoryCollections (addSchedule ex_env ex_completed 0) 0 = Some 2"
  by (simp add: ex_completed_def ex_env_def op_defs Let_def)

text \<open>
  Claim C4, amended. \<open>addSchedule\<close> is not idempotent. Whether or not the schedule is
  present, it appends the schedule to the schedule list, sets its counter to 0, and
  makes its header cache a fresh empty object; with a Mongo backend it also makes its
  memory cache a fresh empty object, otherwise the memory caches stay as they are. The
  entries of other schedules, the cache objects allocated before, the registered runs
  and the timers are unchanged.
\<close>

theorem addSchedule_again:
  "schedules (addSchedule e st s) = schedules st @ [s] \<and>
   scheduleRunCounts (addSchedule e st s) = (scheduleRunCounts st)(s \<mapsto> Num 0) \<and>
   (isMongoDatabase e \<longrightarrow>
      memoryCollections (addSchedule e st s) = (memoryCollections st)(s \<mapsto> nextObj st) \<and>
      headers (addSchedule e st s) = (headers st)(s \<mapsto> nextObj st + 1) \<and>
      objs (addSchedule e st s) = (objs st)(nextObj st := Map.empty, nextObj st + 1 := Map.empty) \<and>
      nextObj (addSchedule e st s) = nextObj st + 2) \<and>
   (\<not> isMongoDatabase e \<longrightarrow>
      memoryCollections (addSchedule e st s) = memoryCollections st \<and>
      headers (addSchedule e st s) = (headers st)(s \<mapsto> nextObj st) \<and>
      objs (addSchedule e st s) = (objs st)(nextObj st := Map.empty) \<and>
      nextObj (addSchedule e st s) = nextObj st + 1) \<and>
   scheduleRuns (addSchedule e st s) = scheduleRuns st \<and>
   runObj (addSchedule e st s) = runObj st \<and>
   keeps_timers st (addSchedule e st s)"
  by (simp add: addSchedule_def new_object_def Let_def keeps_timers_def)

theorem addSchedule_again_witness:
  "isMongoDatabase ex_env \<and> 0 \<in> set (schedules ex_completed) \<and>
   headers (addSchedule ex_env ex_completed 0) 0 = Some 3 \<and>
   objs (addSchedule ex_env ex_completed 0) 3 = Map.empty \<and>
   \<not> isMongoDatabase ex_env_plain \<and>
   headers (addSchedule ex_env_plain ex_completed 0) 0 = Some 2 \<and>
   memoryCollections (addSchedule ex_env_plain ex_completed 0) 0 = Some 0"
  using addSchedule_again [of ex_env ex_completed 0]
    addSchedule_again [of ex_env_plain ex_completed 0]
  by (simp add: ex_completed_shape ex_env_def ex_env_plain_def)

section \<open>Cache objects between two runs\<close>

lemma keeps_runs_refl [simp]: "keeps_runs st st"
  by (simp add: keeps_runs_def)

lemma keeps_runs_trans: "keeps_runs a b \<Longrightarrow> keeps_runs b c \<Longrightarrow> keeps_runs a c"
  by (auto simp: keeps_runs_def)

lemma keeps_runs_foldl:
  "(\<And>st x. keeps_runs st (f st x)) \<Longrightarrow> keeps_runs st (foldl f st xs)"
proof (induction xs arbitrary: st)
  case Nil
  then show ?case by simp
next
  case (Cons x xs)
  have "keeps_runs st (f st x)" by (rule Cons.prems)
  moreover have "keeps_runs (f st x) (foldl f (f st x) xs)" by (rule Cons.IH) (rule Cons.prems)
  ultimately show ?case by (auto intro: keeps_runs_trans)
qed

lemma keeps_runs_same: "runObj st' = runObj st \<Longrightarrow> nextRun st' = nextRun st \<Longrightarrow> keeps_runs st st'"
  by (simp add: keeps_runs_def)

lemma terminateRun_runs: "keeps_runs st (terminateRun st r)"
  by (simp add: terminateRun_shape keeps_runs_def stopped_def)

lemma terminateScheduleRuns_runs: "keeps_runs st (terminateScheduleRuns st s)"
  unfolding terminateScheduleRuns_def Let_def by (rule keeps_runs_foldl) (rule terminateRun_runs)

lemma remediated_runs: "keeps_runs st (remediated e st s)"
proof (cases "atMaxRuns e st s")
  case True
  have "keeps_runs (st\<lparr>logged := logged st @ [Warn_unfinished_runs (length (getRuns st s))]\<rparr>)
          (remediated e st s)"
    using True by (simp add: remediated_def terminateScheduleRuns_runs)
  then show ?thesis by (simp add: keeps_runs_def)
next
  case False
  then show ?thesis by (simp add: remediated_def)
qed

lemma run_runs: "keeps_runs st (run e st s)"
  using remediated_runs [of st e s] by (simp add: run_shape Let_def keeps_runs_def)

lemma emit_finish_runs: "keeps_runs st (emit_finish st r)"
  using terminateRun_runs [of st r]
  by (simp add: emit_finish_shape incrementRunCount_shape keeps_runs_def)

lemma fire_runs: "keeps_runs st (fire e st h)"
  by (simp add: fire_def run_runs split: option.split)

lemma beginTimers_step_runs: "keeps_runs st (beginTimers_step e st s)"
  using run_runs [of st e s] by (simp add: beginTimers_step_shape keeps_runs_def)

lemma beginTimers_runs: "keeps_runs st (beginTimers e st)"
proof -
  have "keeps_runs (clearTimers st) (beginTimers e st)"
    unfolding beginTimers_def Let_def by (rule keeps_runs_foldl) (rule beginTimers_step_runs)
  moreover have "keeps_runs st (clearTimers st)"
    by (rule keeps_runs_same) (simp_all add: clearTimers_shape)
  ultimately show ?thesis by (auto intro: keeps_runs_trans)
qed

lemma step_runs: "keeps_runs st (step e st ev)"
proof (cases ev)
  case (AddSchedule s)
  then show ?thesis by (simp add: keeps_runs_def addSchedule_def new_object_def Let_def)
next
  case (Dispatch s)
  then show ?thesis by (simp add: run_runs)
next
  case (Finish r)
  then show ?thesis by (simp add: emit_finish_runs)
next
  case (PendingArticle r a)
  then show ?thesis
    by (simp add: keeps_runs_def emit_pendingArticle_def onPendingArticle_def Let_def)
next
  case (TerminateRun r)
  then show ?thesis by (simp add: terminateRun_runs)
next
  case (TerminateScheduleRuns s)
  then show ?thesis by (simp add: terminateScheduleRuns_runs)
next
  case BeginTimers
  then show ?thesis by (simp add: beginTimers_runs)
next
  case ClearTimers
  then show ?thesis by (simp add: keeps_runs_def clearTimers_shape)
next
  case (Fire h)
  then show ?thesis by (simp add: fire_runs)
next
  case (AddDebugFeedID f)
  then show ?thesis by (simp add: keeps_runs_def addDebugFeedID_def)
next
  case (RemoveDebugFeedID f)
  then show ?thesis by (simp add: keeps_runs_def removeDebugFeedID_def)
next
  case (WriteHeaders r k v)
  then show ?thesis by (simp add: keeps_runs_def write_cache_def split: option.split)
next
  case (WriteMemory r k v)
  then show ?thesis by (simp add: keeps_runs_def write_cache_def split: option.split)
qed

lemma exec_runs: "keeps_runs st (exec e st evs)"
  unfolding exec_def by (rule keeps_runs_foldl) (rule step_runs)

lemma step_objs_allocated:
  assumes "p < nextObj st"
  shows "objs (step e st ev) p = written st ev p (objs st p) \<and> nextObj st \<le> nextObj (step e st ev)"
proof (cases ev)
  case (AddSchedule s)
  then show ?thesis using assms
    by (simp add: written_def write_target_def addSchedule_def new_object_def Let_def)
next
  case (Dispatch s)
  then show ?thesis using run_store [of st e s]
    by (simp add: written_def write_target_def keeps_store_def)
next
  case (Finish r)
  then show ?thesis using terminateRun_store [of st r]
    by (simp add: written_def write_target_def emit_finish_shape incrementRunCount_shape
        keeps_store_def)
next
  case (PendingArticle r a)
  then show ?thesis using emit_pendingArticle_store [of st r a]
    by (simp add: written_def write_target_def keeps_store_def)
next
  case (TerminateRun r)
  then show ?thesis using terminateRun_store [of st r]
    by (simp add: written_def write_target_def keeps_store_def)
next
  case (TerminateScheduleRuns s)
  then show ?thesis using terminateScheduleRuns_store [of st s]
    by (simp add: written_def write_target_def keeps_store_def)
next
  case BeginTimers
  then show ?thesis using beginTimers_store [of st e]
    by (simp add: written_def write_target_def keeps_store_def)
next
  case ClearTimers
  then show ?thesis using clearTimers_store [of st]
    by (simp add: written_def write_target_def keeps_store_def)
next
  case (Fire h)
  then show ?thesis using fire_store [of st e h]
    by (simp add: written_def write_target_def keeps_store_def)
next
  case (AddDebugFeedID f)
  then show ?thesis by (simp add: written_def write_target_def addDebugFeedID_def)
next
  case (RemoveDebugFeedID f)
  then show ?thesis by (simp add: written_def write_target_def removeDebugFeedID_def)
next
  case (WriteHeaders r k v)
  then show ?thesis
    by (simp add: written_def write_target_def write_cache_def split: option.split)
next
  case (WriteMemory r k v)
  then show ?thesis
    by (simp add: written_def write_target_def write_cache_def split: option.split)
qed

lemma exec_objs_allocated:
  "p < nextObj st \<Longrightarrow> objs (exec e st evs) p = replay e st evs p (objs st p)"
proof (induction evs arbitrary: st)
  case Nil
  then show ?case by simp
next
  case (Cons ev evs)
  have s: "objs (step e st ev) p = written st ev p (objs st p)" "p < nextObj (step e st ev)"
    using step_objs_allocated [OF Cons.prems, of e ev] Cons.prems by auto
  show ?case using Cons.IH [OF s(2)] s(1) by simp
qed

lemma replay_append:
  "replay e st (xs @ ys) p ob = replay e (exec e st xs) ys p (replay e st xs p ob)"
  by (induction xs arbitrary: st ob) auto

lemma replay_keep: "\<not> overwritten e st evs p k \<Longrightarrow> replay e st evs p ob k = ob k"
proof (induction evs arbitrary: st ob)
  case Nil
  then show ?case by simp
next
  case (Cons ev evs)
  then have a: "\<not> overwritten e (step e st ev) evs p k"
    and b: "\<not> (case write_target st ev of Some (q, k', v) \<Rightarrow> q = p \<and> k' = k | None \<Rightarrow> False)"
    by auto
  have "written st ev p ob k = ob k"
    using b by (auto simp: written_def split: option.splits)
  then show ?case using Cons.IH [OF a, of "written st ev p ob"] by simp
qed

lemma caches_ok_init: "caches_ok (init sobjs)"
  by (simp add: caches_ok_def init_def)

lemma caches_ok_keeps: "keeps_store st st' \<Longrightarrow> caches_ok st \<Longrightarrow> caches_ok st'"
  by (simp add: caches_ok_def keeps_store_def)

lemma caches_ok_addSchedule: "caches_ok st \<Longrightarrow> caches_ok (addSchedule e st s)"
  by (auto simp: caches_ok_def addSchedule_def new_object_def Let_def less_Suc_eq
      dest: less_SucI split: if_splits)

lemma caches_ok_step: "caches_ok st \<Longrightarrow> caches_ok (step e st ev)"
proof (cases ev)
  case (AddSchedule s)
  assume "caches_ok st" then show ?thesis using AddSchedule by (simp add: caches_ok_addSchedule)
next
  case (Dispatch s)
  assume "caches_ok st" then show ?thesis using Dispatch run_store [of st e s]
    by (simp add: caches_ok_keeps)
next
  case (Finish r)
  assume "caches_ok st" then show ?thesis using Finish terminateRun_store [of st r]
    by (simp add: emit_finish_shape incrementRunCount_shape caches_ok_def keeps_store_def)
next
  case (PendingArticle r a)
  assume "caches_ok st" then show ?thesis using PendingArticle emit_pendingArticle_store [of st r a]
    by (simp add: caches_ok_keeps)
next
  case (TerminateRun r)
  assume "caches_ok st" then show ?thesis using TerminateRun terminateRun_store [of st r]
    by (simp add: caches_ok_keeps)
next
  case (TerminateScheduleRuns s)
  assume "caches_ok st" then show ?thesis
    using TerminateScheduleRuns terminateScheduleRuns_store [of st s] by (simp add: caches_ok_keeps)
next
  case BeginTimers
  assume "caches_ok st" then show ?thesis using BeginTimers beginTimers_store [of st e]
    by (simp add: caches_ok_keeps)
next
  case ClearTimers
  assume "caches_ok st" then show ?thesis using ClearTimers clearTimers_store [of st]
    by (simp add: caches_ok_keeps)
next
  case (Fire h)
  assume "caches_ok st" then show ?thesis using Fire fire_store [of st e h]
    by (simp add: caches_ok_keeps)
next
  case (AddDebugFeedID f)
  assume "caches_ok st" then show ?thesis using AddDebugFeedID
    by (simp add: addDebugFeedID_def caches_ok_def)
next
  case (RemoveDebugFeedID f)
  assume "caches_ok st" then show ?thesis using RemoveDebugFeedID
    by (simp add: removeDebugFeedID_def caches_ok_def)
next
  case (WriteHeaders r k v)
  assume "caches_ok st" then show ?thesis using WriteHeaders
    by (simp add: write_cache_def caches_ok_def split: option.split)
next
  case (WriteMemory r k v)
  assume "caches_ok st" then show ?thesis using WriteMemory
    by (simp add: write_cache_def caches_ok_def split: option.split)
qed

lemma caches_ok_exec: "caches_ok st \<Longrightarrow> caches_ok (exec e st evs)"
  by (induction evs arbitrary: st) (auto simp: caches_ok_step)

lemma caches_ok_reachable: "caches_ok (exec e (init sobjs) evs)"
  by (rule caches_ok_exec) (rule caches_ok_init)

text \<open>
  The cache object at \<open>p\<close>, allocated when the first run is dispatched, as the next
  dispatch finds it: the writes made in between, replayed on what it held.
\<close>

lemma cache_at_next_dispatch:
  assumes "p < nextObj st"
  shows "objs (run e (exec e (run e st s) evs) s) p = replay e (run e st s) evs p (objs st p)"
proof -
  let ?st1 = "run e st s"
  have st1: "objs ?st1 = objs st" "nextObj ?st1 = nextObj st"
    using run_store [of st e s] by (simp_all add: keeps_store_def)
  have "objs (run e (exec e ?st1 evs) s) = objs (exec e ?st1 evs)"
    using run_store [of "exec e ?st1 evs" e s] by (simp add: keeps_store_def)
  moreover have "objs (exec e ?st1 evs) p = replay e ?st1 evs p (objs ?st1 p)"
    by (rule exec_objs_allocated) (simp add: st1 assms)
  ultimately show ?thesis by (simp add: st1)
qed

text \<open>
  A write by a run into the cache at \<open>p\<close> that no later event of the sequence
  overwrites is there at the next dispatch.
\<close>

lemma write_survives:
  assumes alloc: "p < nextObj st"
    and tgt: "write_target (exec e (run e st s) evs1) w = Some (p, k, v)"
    and keep: "\<not> overwritten e (exec e (run e st s) (evs1 @ [w])) evs2 p k"
  shows "objs (run e (exec e (run e st s) (evs1 @ w # evs2)) s) p k = Some v"
proof -
  let ?st1 = "run e st s"
  let ?a = "exec e ?st1 evs1"
  have sw: "exec e ?st1 (evs1 @ [w]) = step e ?a w" by (simp add: exec_append)
  have "replay e ?st1 (evs1 @ w # evs2) p (objs st p) =
        replay e (step e ?a w) evs2 p (written ?a w p (replay e ?st1 evs1 p (objs st p)))"
    by (simp add: replay_append)
  moreover have "written ?a w p (replay e ?st1 evs1 p (objs st p)) k = Some v"
    using tgt by (simp add: written_def)
  ultimately have "replay e ?st1 (evs1 @ w # evs2) p (objs st p) k = Some v"
    using replay_keep [of e "step e ?a w" evs2 p k] keep sw by simp
  then show ?thesis using cache_at_next_dispatch [OF alloc, of e s "evs1 @ w # evs2"] by simp
qed

lemma first_run_fields:
  "rheaders (runObj (exec e (run e st s) evs) (nextRun st)) = headers st s \<and>
   rmemoryCollection (runObj (exec e (run e st s) evs) (nextRun st)) = memoryCollections st s"
proof -
  have "keeps_runs (run e st s) (exec e (run e st s) evs)" by (rule exec_runs)
  moreover have "nextRun st < nextRun (run e st s)" by simp
  ultimately have "rheaders (runObj (exec e (run e st s) evs) (nextRun st)) =
      rheaders (runObj (run e st s) (nextRun st)) \<and>
    rmemoryCollection (runObj (exec e (run e st s) evs) (nextRun st)) =
      rmemoryCollection (runObj (run e st s) (nextRun st))"
    unfolding keeps_runs_def by blast
  then show ?thesis using run_new_fields [of e st s] by simp
qed

text \<open>
  Claim C7, as the code has it. When the schedule is registered again between two
  dispatches, the second run is handed other cache objects than the first, and what
  the first run wrote is not in them.
\<close>

theorem caches_shared_counterexample:
  "rheaders (runObj ex_readded 0) = Some 1 \<and> rheaders (runObj ex_readded 1) = Some 3 \<and>
   rmemoryCollection (runObj ex_readded 0) = Some 0 \<and>
   rmemoryCollection (runObj ex_readded 1) = Some 2 \<and>
   objs ex_readded 1 ''etag'' = Some ''abc'' \<and> objs ex_readded 3 ''etag'' = None"
  by (simp add: ex_readded_def ex_env_def op_defs write_cache_def Let_def)

text \<open>
  Claim C7, amended. A run is constructed with the references the store holds for its
  schedule. When the schedule is not registered again in between, the next run of the
  schedule is handed the same header cache and the same memory collection as the
  previous one (both undefined where none was allocated). Dispatching copies and
  changes no cache object, and no operation of the manager changes an allocated one:
  at the next dispatch each of the two caches holds what it held at the previous
  dispatch with the writes made in between applied in order. In particular a value the
  previous run wrote under a key is there for the next run, whatever else happened in
  between, unless a later write to the same key of the same object replaced it.
\<close>

theorem caches_shared:
  assumes "AddSchedule s \<notin> set evs"
  shows "rheaders (runObj (run e st s) (nextRun st)) = headers st s \<and>
    rmemoryCollection (runObj (run e st s) (nextRun st)) = memoryCollections st s \<and>
    rheaders (runObj (run e (exec e (run e st s) evs) s) (nextRun (exec e (run e st s) evs)))
      = headers st s \<and>
    rmemoryCollection (runObj (run e (exec e (run e st s) evs) s) (nextRun (exec e (run e st s) evs)))
      = memoryCollections st s \<and>
    objs (run e (exec e (run e st s) evs) s) = objs (exec e (run e st s) evs) \<and>
    (caches_ok st \<longrightarrow>
      (\<forall>p. headers st s = Some p \<or> memoryCollections st s = Some p \<longrightarrow>
         objs (run e (exec e (run e st s) evs) s) p = replay e (run e st s) evs p (objs st p)) \<and>
      (\<forall>p k v evs1 evs2.
         headers st s = Some p \<and> evs = evs1 @ WriteHeaders (nextRun st) k v # evs2 \<and>
         \<not> overwritten e (exec e (run e st s) (evs1 @ [WriteHeaders (nextRun st) k v])) evs2 p k \<longrightarrow>
         objs (run e (exec e (run e st s) evs) s) p k = Some v) \<and>
      (\<forall>p k v evs1 evs2.
         memoryCollections st s = Some p \<and> evs = evs1 @ WriteMemory (nextRun st) k v # evs2 \<and>
         \<not> overwritten e (exec e (run e st s) (evs1 @ [WriteMemory (nextRun st) k v])) evs2 p k \<longrightarrow>
         objs (run e (exec e (run e st s) evs) s) p k = Some v))"
proof -
  let ?st1 = "run e st s"
  let ?st2 = "exec e ?st1 evs"
  have first: "rheaders (runObj ?st1 (nextRun st)) = headers st s"
    "rmemoryCollection (runObj ?st1 (nextRun st)) = memoryCollections st s"
    using run_new_fields [of e st s] by simp_all
  have same1: "headers ?st1 s = headers st s" "memoryCollections ?st1 s = memoryCollections st s"
    using run_store [of st e s] by (simp_all add: keeps_store_def)
  have same2: "headers ?st2 s = headers st s" "memoryCollections ?st2 s = memoryCollections st s"
    using exec_caches [OF assms, of e ?st1] same1 by simp_all
  have second: "rheaders (runObj (run e ?st2 s) (nextRun ?st2)) = headers st s"
    "rmemoryCollection (runObj (run e ?st2 s) (nextRun ?st2)) = memoryCollections st s"
    using run_new_fields [of e ?st2 s] same2 by simp_all
  have untouched: "objs (run e ?st2 s) = objs ?st2"
    using run_store [of ?st2 e s] by (simp add: keeps_store_def)
  have content: "\<forall>p. headers st s = Some p \<or> memoryCollections st s = Some p \<longrightarrow>
         objs (run e ?st2 s) p = replay e ?st1 evs p (objs st p)" if ok: "caches_ok st"
  proof (intro allI impI)
    fix p assume "headers st s = Some p \<or> memoryCollections st s = Some p"
    then have "p < nextObj st" using ok by (auto simp: caches_ok_def)
    then show "objs (run e ?st2 s) p = replay e ?st1 evs p (objs st p)"
      by (rule cache_at_next_dispatch)
  qed
  have wh: "\<forall>p k v evs1 evs2.
         headers st s = Some p \<and> evs = evs1 @ WriteHeaders (nextRun st) k v # evs2 \<and>
         \<not> overwritten e (exec e ?st1 (evs1 @ [WriteHeaders (nextRun st) k v])) evs2 p k \<longrightarrow>
         objs (run e ?st2 s) p k = Some v" if ok: "caches_ok st"
  proof (intro allI impI, elim conjE)
    fix p k v evs1 evs2
    assume h: "headers st s = Some p" and ev: "evs = evs1 @ WriteHeaders (nextRun st) k v # evs2"
      and keep: "\<not> overwritten e (exec e ?st1 (evs1 @ [WriteHeaders (nextRun st) k v])) evs2 p k"
    have alloc: "p < nextObj st" using ok h by (auto simp: caches_ok_def)
    have tgt: "write_target (exec e ?st1 evs1) (WriteHeaders (nextRun st) k v) = Some (p, k, v)"
      using first_run_fields [of e st s evs1] h by (simp add: write_target_def)
    show "objs (run e ?st2 s) p k = Some v"
      unfolding ev by (rule write_survives [OF alloc tgt keep])
  qed
  have wm: "\<forall>p k v evs1 evs2.
         memoryCollections st s = Some p \<and> evs = evs1 @ WriteMemory (nextRun st) k v # evs2 \<and>
         \<not> overwritten e (exec e ?st1 (evs1 @ [WriteMemory (nextRun st) k v])) evs2 p k \<longrightarrow>
         objs (run e ?st2 s) p k = Some v" if ok: "caches_ok st"
  proof (intro allI impI, elim conjE)
    fix p k v evs1 evs2
    assume h: "memoryCollections st s = Some p"
      and ev: "evs = evs1 @ WriteMemory (nextRun st) k v # evs2"
      and keep: "\<not> overwritten e (exec e ?st1 (evs1 @ [WriteMemory (nextRun st) k v])) evs2 p k"
    have alloc: "p < nextObj st" using ok h by (auto simp: caches_ok_def)
    have tgt: "write_target (exec e ?st1 evs1) (WriteMemory (nextRun st) k v) = Some (p, k, v)"
      using first_run_fields [of e st s evs1] h by (simp add: write_target_def)
    show "objs (run e ?st2 s) p k = Some v"
      unfolding ev by (rule write_survives [OF alloc tgt keep])
  qed
  show ?thesis using first second untouched content wh wm by blast
qed

theorem caches_shared_witness:
  "AddSchedule 0 \<notin> set [WriteHeaders 0 ''etag'' ''abc'', WriteHeaders 0 ''seen'' ''1'',
      AddSchedule 1, Finish 0] \<and>
   caches_ok (addSchedule ex_env (init ex_sobjs) 0) \<and>
   headers (addSchedule ex_env (init ex_sobjs) 0) 0 = Some 1 \<and>
   rheaders (runObj (run ex_env (exec ex_env (run ex_env (addSchedule ex_env (init ex_sobjs) 0) 0)
       [WriteHeaders 0 ''etag'' ''abc'', WriteHeaders 0 ''seen'' ''1'', AddSchedule 1, Finish 0]) 0)
     1) = Some 1 \<and>
   objs (run ex_env (exec ex_env (run ex_env (addSchedule ex_env (init ex_sobjs) 0) 0)
       [WriteHeaders 0 ''etag'' ''abc'', WriteHeaders 0 ''seen'' ''1'', AddSchedule 1, Finish 0]) 0)
     1 ''etag'' = Some ''abc''"
proof -
  let ?st = "addSchedule ex_env (init ex_sobjs) 0"
  let ?w = "WriteHeaders 0 ''etag'' ''abc''"
  let ?evs2 = "[WriteHeaders 0 ''seen'' ''1'', AddSchedule 1, Finish 0]"
  let ?evs = "?w # ?evs2"
  let ?st2 = "exec ex_env (run ex_env ?st 0) ?evs"
  have a: "AddSchedule 0 \<notin> set ?evs" by simp
  have "caches_ok (exec ex_env (init ex_sobjs) [AddSchedule 0])" by (rule caches_ok_reachable)
  then have ok: "caches_ok ?st" by simp
  have h: "headers ?st 0 = Some 1"
    by (simp add: ex_env_def op_defs Let_def)
  have n0: "nextRun ?st = 0"
    by (simp add: ex_env_def op_defs Let_def)
  have n: "nextRun ?st2 = 1"
    by (simp add: ex_env_def op_defs write_cache_def Let_def)
  have keep: "\<not> overwritten ex_env (exec ex_env (run ex_env ?st 0) ([] @ [?w])) ?evs2 1 ''etag''"
    by (simp add: ex_env_def op_defs write_cache_def write_target_def Let_def)
  note c = caches_shared [OF a, of ex_env ?st]
  from c have "rheaders (runObj (run ex_env ?st2 0) (nextRun ?st2)) = headers ?st 0" by blast
  then have c1: "rheaders (runObj (run ex_env ?st2 0) 1) = Some 1" by (simp only: n h)
  from c ok have "\<forall>p k v evs1 evs2.
         headers ?st 0 = Some p \<and> ?evs = evs1 @ WriteHeaders (nextRun ?st) k v # evs2 \<and>
         \<not> overwritten ex_env (exec ex_env (run ex_env ?st 0)
              (evs1 @ [WriteHeaders (nextRun ?st) k v])) evs2 p k \<longrightarrow>
         objs (run ex_env ?st2 0) p k = Some v"
    by blast
  note r = this
  have inst: "headers ?st 0 = Some 1 \<and>
      ?evs = [] @ WriteHeaders (nextRun ?st) ''etag'' ''abc'' # ?evs2 \<and>
      \<not> overwritten ex_env (exec ex_env (run ex_env ?st 0)
           ([] @ [WriteHeaders (nextRun ?st) ''etag'' ''abc''])) ?evs2 1 ''etag''"
    unfolding n0 using h keep by simp
  have c2: "objs (run ex_env ?st2 0) 1 ''etag'' = Some ''abc''"
    by (rule r [rule_format, OF inst])
  show ?thesis using a ok h c1 c2 by blast
qed

section \<open>The memory cache and the backend\<close>

lemma addSchedule_plain:
  "\<not> isMongoDatabase e \<Longrightarrow> memoryCollections (addSchedule e st s) = memoryCollections st"
  by (simp add: addSchedule_def new_object_def Let_def)

lemma step_memory_plain:
  assumes "\<not> isMongoDatabase e"
  shows "memoryCollections (step e st ev) t = memoryCollections st t"
proof (cases "ev = AddSchedule t")
  case True
  then show ?thesis using addSchedule_plain [OF assms, of st t] by simp
next
  case False
  then show ?thesis using step_tables [of ev t e st] by simp
qed

lemma exec_memory_plain:
  "\<not> isMongoDatabase e \<Longrightarrow> memoryCollections (exec e st evs) t = memoryCollections st t"
  by (induction evs arbitrary: st) (auto simp: step_memory_plain)

lemma addSchedule_headers:
  "headers (addSchedule e st s) s = Some (if isMongoDatabase e then nextObj st + 1 else nextObj st) \<and>
   objs (addSchedule e st s) (if isMongoDatabase e then nextObj st + 1 else nextObj st) = Map.empty \<and>
   nextObj (addSchedule e st s) = (if isMongoDatabase e then nextObj st + 2 else nextObj st + 1)"
  by (simp add: addSchedule_def new_object_def Let_def)

text \<open>
  Claim C10. With a backend that is not Mongo, \<open>addSchedule\<close> allocates no memory
  cache, so every later dispatch of the schedule constructs the run with an undefined
  memory collection; the header cache is a freshly allocated empty object with either
  backend.
\<close>

theorem memory_cache_only_with_mongo:
  "(\<not> isMongoDatabase e \<longrightarrow>
      memoryCollections (addSchedule e st s) = memoryCollections st \<and>
      (\<forall>evs. memoryCollections st s = None \<longrightarrow>
         memoryCollections (exec e (addSchedule e st s) evs) s = None \<and>
         rmemoryCollection (runObj (run e (exec e (addSchedule e st s) evs) s)
           (nextRun (exec e (addSchedule e st s) evs))) = None)) \<and>
   (\<exists>a. headers (addSchedule e st s) s = Some a \<and> objs (addSchedule e st s) a = Map.empty \<and>
        nextObj st \<le> a \<and> a < nextObj (addSchedule e st s))"
proof -
  have plain: "memoryCollections (addSchedule e st s) = memoryCollections st \<and>
      (\<forall>evs. memoryCollections st s = None \<longrightarrow>
         memoryCollections (exec e (addSchedule e st s) evs) s = None \<and>
         rmemoryCollection (runObj (run e (exec e (addSchedule e st s) evs) s)
           (nextRun (exec e (addSchedule e st s) evs))) = None)" if nm: "\<not> isMongoDatabase e"
  proof -
    have a: "memoryCollections (addSchedule e st s) = memoryCollections st"
      using nm by (rule addSchedule_plain)
    have b: "memoryCollections (exec e (addSchedule e st s) evs) s = memoryCollections st s" for evs
      using exec_memory_plain [OF nm, of "addSchedule e st s" evs s] a by simp
    have c: "rmemoryCollection (runObj (run e (exec e (addSchedule e st s) evs) s)
           (nextRun (exec e (addSchedule e st s) evs))) = memoryCollections st s" for evs
      using run_new_fields [of e "exec e (addSchedule e st s) evs" s] b [of evs] by simp
    show ?thesis using a b c by simp
  qed
  have hd: "\<exists>a. headers (addSchedule e st s) s = Some a \<and> objs (addSchedule e st s) a = Map.empty \<and>
        nextObj st \<le> a \<and> a < nextObj (addSchedule e st s)"
    using addSchedule_headers [of e st s] by (cases "isMongoDatabase e") auto
  show ?thesis using plain hd by blast
qed

theorem memory_cache_only_with_mongo_witness:
  "\<not> isMongoDatabase ex_env_plain \<and> memoryCollections (init ex_sobjs) 0 = None \<and>
   rmemoryCollection (runObj (run ex_env_plain
       (exec ex_env_plain (addSchedule ex_env_plain (init ex_sobjs) 0) [Dispatch 0, Finish 0]) 0)
     (nextRun (exec ex_env_plain (addSchedule ex_env_plain (init ex_sobjs) 0) [Dispatch 0, Finish 0])))
     = None \<and>
   headers (addSchedule ex_env_plain (init ex_sobjs) 0) 0 = Some 0 \<and>
   rmemoryCollection (runObj (run ex_env (addSchedule ex_env (init ex_sobjs) 0) 0) 0) = Some 0"
proof -
  have a: "\<not> isMongoDatabase ex_env_plain" by (simp add: ex_env_plain_def)
  have b: "memoryCollections (init ex_sobjs) 0 = None" by (simp add: init_def)
  have c: "headers (addSchedule ex_env_plain (init ex_sobjs) 0) 0 = Some 0"
    by (simp add: ex_env_plain_def op_defs Let_def)
  have d: "rmemoryCollection (runObj (run ex_env (addSchedule ex_env (init ex_sobjs) 0) 0) 0) = Some 0"
    by (simp add: ex_env_def op_defs Let_def)
  from memory_cache_only_with_mongo [of ex_env_plain "init ex_sobjs" 0] a b
  have "rmemoryCollection (runObj (run ex_env_plain
       (exec ex_env_plain (addSchedule ex_env_plain (init ex_sobjs) 0) [Dispatch 0, Finish 0]) 0)
     (nextRun (exec ex_env_plain (addSchedule ex_env_plain (init ex_sobjs) 0) [Dispatch 0, Finish 0])))
     = None"
    by blast
  then show ?thesis using a b c d by blast
qed

section \<open>The timers\<close>




lemma started_foldl_terminateRun [simp]:
  "started (runObj (foldl terminateRun st rs) q) = started (runObj st q)"
  by (induction rs arbitrary: st) (auto simp: terminateRun_shape stopped_def)
















lemma getRuns_with_timers [simp]: "getRuns (with_timers st hs is n) s = getRuns st s"
  by (simp add: getRuns_def with_timers_def)










lemma arm_fields [simp]: "ihandle (arm st h s) = h" "ischedule (arm st h s) = s"
  by (simp_all add: arm_def)






end
